theory Spec2Isabelle
  imports Complex_Main "HOL-Library.Word"
begin

unbundle bit_operations_syntax

section \<open>Values of the Python program\<close>

text \<open>
  The program is \<^verbatim>\<open>Main.py\<close>: an AX.25 frame builder and a 300 baud AFSK encoder.
  Python integers are unbounded and are modelled as \<^typ>\<open>int\<close>; the elements of a
  \<^verbatim>\<open>bytearray\<close> are 8-bit words, and every place where Python checks that an
  integer fits a byte is a branch of the model. A Python \<^verbatim>\<open>str\<close> is the list of its
  code points. A Python float is a double. The tone synthesis and the high-pass filter
  are read in real arithmetic, the sine and \<open>pi\<close> included: there the rounding of
  doubles is not part of the model. The rescaling of the normalization step is computed
  as the program computes it, every operation rounded to a double.
\<close>

type_synonym byte = "8 word"

type_synonym pystr = "nat list"

datatype py_error = ValueError | UnicodeEncodeError | IndexError | ZeroDivisionError | OverflowError

text \<open>Module constants (lines 9 to 16).\<close>

definition SAMPLE_RATE :: int where
  "SAMPLE_RATE = 96000"

definition BAUD_RATE :: int where
  "BAUD_RATE = 300"

definition MARK_TONE :: int where
  "MARK_TONE = 1800"

definition SPACE_TONE :: int where
  "SPACE_TONE = 1600"

definition DURATION_PER_BIT :: int where
  "DURATION_PER_BIT = SAMPLE_RATE div BAUD_RATE"

definition FLAG :: int where
  "FLAG = 0x7E"

definition POLY :: int where
  "POLY = 0x8408"

definition PREAMBLE_LENGTH :: nat where
  "PREAMBLE_LENGTH = 32"

text \<open>
  \<^verbatim>\<open>int(x)\<close> of a float truncates towards zero. \<^verbatim>\<open>x % y\<close> of floats with a
  positive divisor is \<open>x - y * floor (x / y)\<close>; the only divisor in the program is
  \<open>2 * pi\<close>.
\<close>

definition py_int :: "real \<Rightarrow> int" where
  "py_int x = (if 0 \<le> x then \<lfloor>x\<rfloor> else \<lceil>x\<rceil>)"

definition py_fmod :: "real \<Rightarrow> real \<Rightarrow> real" where
  "py_fmod x y = x - y * of_int \<lfloor>x / y\<rfloor>"

text \<open>
  The double nearest to a real number: the significand has 53 bits and a tie goes to
  the even significand. A product and the quotient of two integers are the nearest
  double to the exact result, and so is the conversion of an integer. Overflow and
  subnormal numbers are left out: the values of the normalization step are far from both.
\<close>

definition round_half_even :: "real \<Rightarrow> int" where
  "round_half_even x =
     (let f = \<lfloor>x\<rfloor>; d = x - of_int f
      in if d < 1 / 2 then f else if 1 / 2 < d then f + 1 else if even f then f else f + 1)"

definition fl64 :: "real \<Rightarrow> real" where
  "fl64 x =
     (if x = 0 then 0
      else let e = \<lfloor>log 2 \<bar>x\<bar>\<rfloor> - 52
           in of_int (round_half_even (x / 2 powr of_int e)) * 2 powr of_int e)"

text \<open>
  \<^verbatim>\<open>bytearray(iterable)\<close> and \<^verbatim>\<open>bytearray.append\<close> raise ValueError for an
  integer outside \<open>range(0, 256)\<close>.
\<close>

definition byte_of :: "int \<Rightarrow> py_error + byte" where
  "byte_of v = (if 0 \<le> v \<and> v < 256 then Inr (word_of_int v) else Inl ValueError)"

fun bytearray_of :: "int list \<Rightarrow> py_error + byte list" where
  "bytearray_of [] = Inr []"
| "bytearray_of (v # vs) =
     (case byte_of v of
        Inl e \<Rightarrow> Inl e
      | Inr b \<Rightarrow> (case bytearray_of vs of Inl e \<Rightarrow> Inl e | Inr bs \<Rightarrow> Inr (b # bs)))"

section \<open>Checksum: \<^verbatim>\<open>crc16_ccitt\<close> (lines 49 to 58)\<close>

definition crc_shift :: "int \<Rightarrow> int" where
  "crc_shift crc = (if crc AND 1 \<noteq> 0 then drop_bit 1 crc XOR POLY else drop_bit 1 crc)"

fun crc_bit_loop :: "nat \<Rightarrow> int \<Rightarrow> int" where
  "crc_bit_loop 0 crc = crc"
| "crc_bit_loop (Suc k) crc = crc_bit_loop k (crc_shift crc)"

fun crc_byte_loop :: "int \<Rightarrow> byte list \<Rightarrow> int" where
  "crc_byte_loop crc [] = crc"
| "crc_byte_loop crc (b # data) = crc_byte_loop (crc_bit_loop 8 (crc XOR uint b)) data"

definition crc16_ccitt :: "byte list \<Rightarrow> int" where
  "crc16_ccitt data = crc_byte_loop 0xFFFF data XOR 0xFFFF"

text \<open>
  The CRC-16/X-25 algorithm as the specification words it, on a 16-bit register: for
  comparison with \<^const>\<open>crc16_ccitt\<close>, which computes on unbounded integers.
\<close>

definition x25_shift :: "16 word \<Rightarrow> 16 word" where
  "x25_shift r = (if bit r 0 then drop_bit 1 r XOR 0x8408 else drop_bit 1 r)"

definition x25_byte :: "16 word \<Rightarrow> byte \<Rightarrow> 16 word" where
  "x25_byte r b = (x25_shift ^^ 8) (r XOR ucast b)"

definition crc16_x25 :: "byte list \<Rightarrow> 16 word" where
  "crc16_x25 data = foldl x25_byte 0xFFFF data XOR 0xFFFF"

section \<open>Address field and frame: \<^verbatim>\<open>encode_callsign\<close>, \<^verbatim>\<open>ax25_frame\<close> (lines 29 to 47)\<close>

text \<open>
  \<^verbatim>\<open>str.ljust(6)\<close> pads with spaces on the right, \<^verbatim>\<open>[:6]\<close> keeps the first six
  characters. \<^verbatim>\<open>str.upper()\<close> maps every character on its own: an ASCII character
  to itself, but for the letters a to z; what it does to a code point from 128 on is the
  Unicode upper-case table of the Python runtime (one character can become several,
  or an ASCII one), which is no part of the repository and is the parameter \<open>uc\<close>.
\<close>

definition ljust :: "nat \<Rightarrow> pystr \<Rightarrow> pystr" where
  "ljust width s = s @ replicate (width - length s) 32"

definition upper_char :: "(nat \<Rightarrow> pystr) \<Rightarrow> nat \<Rightarrow> pystr" where
  "upper_char uc c =
     (if c < 128 then [if 97 \<le> c \<and> c \<le> 122 then c - 32 else c] else uc c)"

definition upper :: "(nat \<Rightarrow> pystr) \<Rightarrow> pystr \<Rightarrow> pystr" where
  "upper uc s = concat (map (upper_char uc) s)"

definition encode_callsign :: "(nat \<Rightarrow> pystr) \<Rightarrow> pystr \<Rightarrow> int \<Rightarrow> py_error + byte list" where
  "encode_callsign uc callsign ssid =
     (let callsign' = upper uc (take 6 (ljust 6 callsign)) in
      case bytearray_of (map (\<lambda>c. push_bit 1 (int c)) callsign') of
        Inl e \<Rightarrow> Inl e
      | Inr encoded \<Rightarrow>
          (case byte_of (push_bit 1 ssid OR 0x60) of
             Inl e \<Rightarrow> Inl e
           | Inr b \<Rightarrow> Inr (encoded @ [b])))"

text \<open>The loop over the digipeater path (lines 39 and 40).\<close>

fun extend_path :: "(nat \<Rightarrow> pystr) \<Rightarrow> byte list \<Rightarrow> pystr list \<Rightarrow> py_error + byte list" where
  "extend_path uc frame [] = Inr frame"
| "extend_path uc frame (call # path) =
     (case encode_callsign uc call 0 of
        Inl e \<Rightarrow> Inl e
      | Inr a \<Rightarrow> extend_path uc (frame @ a) path)"

text \<open>\<^verbatim>\<open>frame[-1] |= 0x01\<close> (line 41); an empty frame would raise IndexError.\<close>

definition set_last_bit :: "byte list \<Rightarrow> py_error + byte list" where
  "set_last_bit frame =
     (if frame = [] then Inl IndexError else Inr (butlast frame @ [last frame OR 0x01]))"

text \<open>The address field: the frame as it stands after line 41.\<close>

definition ax25_addresses :: "(nat \<Rightarrow> pystr) \<Rightarrow> pystr \<Rightarrow> pystr \<Rightarrow> pystr list \<Rightarrow> py_error + byte list" where
  "ax25_addresses uc source destination path =
     (case encode_callsign uc destination 0 of
        Inl e \<Rightarrow> Inl e
      | Inr d \<Rightarrow>
          (case encode_callsign uc source 0 of
             Inl e \<Rightarrow> Inl e
           | Inr s \<Rightarrow>
               (case extend_path uc (d @ s) path of
                  Inl e \<Rightarrow> Inl e
                | Inr frame \<Rightarrow> set_last_bit frame)))"

text \<open>\<^verbatim>\<open>info.encode('ascii')\<close> raises UnicodeEncodeError at a code point from 128 on.\<close>

definition encode_ascii :: "pystr \<Rightarrow> py_error + byte list" where
  "encode_ascii s = (if list_all (\<lambda>c. c < 128) s then Inr (map of_nat s) else Inl UnicodeEncodeError)"

text \<open>
  \<^verbatim>\<open>crc.to_bytes(2, 'little')\<close> raises OverflowError for a negative integer or one
  that needs more than two bytes.
\<close>

definition to_bytes2_little :: "int \<Rightarrow> py_error + byte list" where
  "to_bytes2_little v =
     (if 0 \<le> v \<and> v < 65536 then Inr [word_of_int v, word_of_int (drop_bit 8 v)]
      else Inl OverflowError)"

definition ax25_frame :: "(nat \<Rightarrow> pystr) \<Rightarrow> pystr \<Rightarrow> pystr \<Rightarrow> pystr list \<Rightarrow> pystr \<Rightarrow> py_error + byte list" where
  "ax25_frame uc source destination path info =
     (case ax25_addresses uc source destination path of
        Inl e \<Rightarrow> Inl e
      | Inr addr \<Rightarrow>
          (case encode_ascii info of
             Inl e \<Rightarrow> Inl e
           | Inr payload \<Rightarrow>
               (let frame = addr @ [0x03, 0xF0] @ payload in
                case to_bytes2_little (crc16_ccitt frame) of
                  Inl e \<Rightarrow> Inl e
                | Inr crc \<Rightarrow>
                    Inr (replicate PREAMBLE_LENGTH (word_of_int FLAG) @ (frame @ crc)
                         @ [word_of_int FLAG]))))"

section \<open>Bit stream: \<^verbatim>\<open>generate_bitstream\<close> (lines 106 to 120)\<close>

fun preamble_loop :: "nat \<Rightarrow> int list \<Rightarrow> int list" where
  "preamble_loop 0 bitstream = bitstream"
| "preamble_loop (Suc n) bitstream = preamble_loop n (bitstream @ [0, 1])"

text \<open>The inner loop over \<open>range(8)\<close>, on the state \<open>(prev_bit, bitstream)\<close>.\<close>

fun byte_loop :: "byte \<Rightarrow> nat list \<Rightarrow> int \<times> int list \<Rightarrow> int \<times> int list" where
  "byte_loop b [] st = st"
| "byte_loop b (i # is) (prev_bit, bitstream) =
     (let bit' = drop_bit i (uint b) AND 1;
          prev_bit' = (if bit' = 0 then prev_bit XOR 1 else prev_bit)
      in byte_loop b is (prev_bit', bitstream @ [prev_bit']))"

fun packet_loop :: "byte list \<Rightarrow> int \<times> int list \<Rightarrow> int \<times> int list" where
  "packet_loop [] st = st"
| "packet_loop (b # packet) st = packet_loop packet (byte_loop b [0..<8] st)"

definition generate_bitstream :: "byte list \<Rightarrow> int list" where
  "generate_bitstream packet =
     snd (packet_loop packet (1, preamble_loop PREAMBLE_LENGTH [])) @ [0, 1]"

text \<open>
  The differential rule as the specification words it: a pure step from
  \<open>(state, bit)\<close> to \<open>(new_state, output_bit)\<close>, folded over the bits of the
  packet, least significant bit of each byte first.
\<close>

definition nrzi_step :: "int \<Rightarrow> int \<Rightarrow> int \<times> int" where
  "nrzi_step state bit' = (if bit' = 0 then (1 - state, 1 - state) else (state, state))"

fun nrzi_fold :: "int \<Rightarrow> int list \<Rightarrow> int list" where
  "nrzi_fold state [] = []"
| "nrzi_fold state (bit' # bits) =
     snd (nrzi_step state bit') # nrzi_fold (fst (nrzi_step state bit')) bits"

definition lsb_first :: "byte \<Rightarrow> int list" where
  "lsb_first b = map (\<lambda>i. if bit b i then 1 else 0) [0..<8]"

definition differential_bitstream :: "byte list \<Rightarrow> int list" where
  "differential_bitstream packet =
     concat (replicate PREAMBLE_LENGTH [0, 1]) @ nrzi_fold 1 (concat (map lsb_first packet)) @ [0, 1]"

section \<open>Tone synthesis: \<^verbatim>\<open>generate_continuous_tone\<close> (lines 74 to 80)\<close>

definition tone_sample :: "real \<Rightarrow> real \<Rightarrow> real \<Rightarrow> nat \<Rightarrow> int" where
  "tone_sample frequency phase amplitude t =
     py_int (amplitude * 32767 * sin (2 * pi * frequency * real t / real_of_int SAMPLE_RATE + phase))"

definition generate_continuous_tone :: "real \<Rightarrow> int \<Rightarrow> real \<Rightarrow> real \<Rightarrow> int list \<times> real" where
  "generate_continuous_tone frequency samples phase amplitude =
     (map (tone_sample frequency phase amplitude) [0..<nat samples],
      phase + py_fmod (2 * pi * frequency * real_of_int samples / real_of_int SAMPLE_RATE) (2 * pi))"

section \<open>High-pass filter: \<^verbatim>\<open>highpass_filter\<close> (lines 18 to 27)\<close>

text \<open>Lines 19 and 20: each float division raises ZeroDivisionError at a zero divisor.\<close>

definition highpass_alpha :: "real \<Rightarrow> py_error + real" where
  "highpass_alpha cutoff =
     (if cutoff * 2 * pi = 0 then Inl ZeroDivisionError
      else let RC = 1 / (cutoff * 2 * pi) in
        if RC + 1 / real_of_int SAMPLE_RATE = 0 then Inl ZeroDivisionError
        else Inr (RC / (RC + 1 / real_of_int SAMPLE_RATE)))"

fun highpass_loop :: "real \<Rightarrow> int list \<Rightarrow> real \<Rightarrow> int list \<Rightarrow> int list" where
  "highpass_loop alpha filtered_data prev_sample [] = filtered_data"
| "highpass_loop alpha filtered_data prev_sample (sample # data) =
     (let filtered_sample = alpha * (prev_sample + real_of_int sample -
            (if filtered_data \<noteq> [] then real_of_int (last filtered_data) else real_of_int sample))
      in highpass_loop alpha (filtered_data @ [py_int filtered_sample]) (real_of_int sample) data)"

definition highpass_filter :: "int list \<Rightarrow> real \<Rightarrow> py_error + int list" where
  "highpass_filter data cutoff =
     (case highpass_alpha cutoff of
        Inl e \<Rightarrow> Inl e
      | Inr alpha \<Rightarrow> Inr (highpass_loop alpha [] 0 data))"

section \<open>Audio pipeline: \<^verbatim>\<open>afsk_encode\<close> (lines 82 to 104)\<close>

text \<open>
  The loop over the bit stream (lines 88 to 98), on the state \<open>(audio, phase)\<close>. The
  variable \<^verbatim>\<open>current_tone\<close> is written and never read, and is left out.
\<close>

fun tone_loop :: "int list \<Rightarrow> real \<Rightarrow> int list \<Rightarrow> int list \<times> real" where
  "tone_loop audio phase [] = (audio, phase)"
| "tone_loop audio phase (bit' # bitstream) =
     (let (tone, phase') =
            (if bit' = 1
             then generate_continuous_tone (real_of_int MARK_TONE) DURATION_PER_BIT phase 0.02
             else generate_continuous_tone (real_of_int SPACE_TONE) DURATION_PER_BIT phase 0.02)
      in tone_loop (audio @ tone) phase' bitstream)"

text \<open>
  Line 100: \<^verbatim>\<open>max(abs(sample) for sample in audio)\<close>; \<^verbatim>\<open>max\<close> of an empty
  sequence raises ValueError.
\<close>

definition max_abs :: "int list \<Rightarrow> py_error + int" where
  "max_abs audio =
     (case audio of
        [] \<Rightarrow> Inl ValueError
      | sample # rest \<Rightarrow> Inr (fold (\<lambda>x m. max m \<bar>x\<bar>) rest \<bar>sample\<bar>))"

text \<open>
  Line 102: \<^verbatim>\<open>int(sample * (32767 / max_amplitude))\<close>. The quotient of the two
  integers is a double; the integer sample is converted to a double and multiplied by
  it, and the product, a double again, is truncated.
\<close>

definition rescale :: "int \<Rightarrow> int \<Rightarrow> int" where
  "rescale max_amplitude sample =
     py_int (fl64 (fl64 (real_of_int sample) * fl64 (32767 / real_of_int max_amplitude)))"

text \<open>The normalization step, lines 100 to 102.\<close>

definition normalize :: "int list \<Rightarrow> py_error + int list" where
  "normalize audio =
     (case max_abs audio of
        Inl e \<Rightarrow> Inl e
      | Inr max_amplitude \<Rightarrow>
          (if max_amplitude > 0
           then Inr (map (\<lambda>sample. rescale max_amplitude sample) audio)
           else Inr audio))"

definition afsk_encode :: "byte list \<Rightarrow> py_error + int list" where
  "afsk_encode packet =
     (let bitstream = generate_bitstream packet;
          (audio, phase) = tone_loop [] 0 bitstream
      in case normalize audio of
           Inl e \<Rightarrow> Inl e
         | Inr audio' \<Rightarrow> highpass_filter audio' 350)"

section \<open>Wave data: \<^verbatim>\<open>save_to_wav\<close> (lines 127 to 129)\<close>

text \<open>
  \<^verbatim>\<open>int(sample).to_bytes(2, byteorder='little', signed=True)\<close> raises
  OverflowError for an integer outside the signed 16-bit range. The loop extends
  \<^verbatim>\<open>wav_data\<close> by the two bytes of each sample; writing the file itself is not
  modelled.
\<close>

definition to_bytes_signed2 :: "int \<Rightarrow> py_error + byte list" where
  "to_bytes_signed2 v =
     (if - 32768 \<le> v \<and> v \<le> 32767 then Inr [word_of_int v, word_of_int (drop_bit 8 v)]
      else Inl OverflowError)"

fun wav_loop :: "byte list \<Rightarrow> int list \<Rightarrow> py_error + byte list" where
  "wav_loop wav_data [] = Inr wav_data"
| "wav_loop wav_data (sample # audio) =
     (case to_bytes_signed2 sample of
        Inl e \<Rightarrow> Inl e
      | Inr bs \<Rightarrow> wav_loop (wav_data @ bs) audio)"

definition wav_frames :: "int list \<Rightarrow> py_error + byte list" where
  "wav_frames audio = wav_loop [] audio"

section \<open>Predicates and closed forms used in the statements\<close>

text \<open>A string is ASCII when every code point is below 128.\<close>

definition is_ascii :: "pystr \<Rightarrow> bool" where
  "is_ascii s = list_all (\<lambda>c. c < 128) s"

text \<open>
  A callsign fits when the six characters \<^verbatim>\<open>encode_callsign\<close> keeps of it, upper-cased,
  are all ASCII: then every shifted code point fits a byte.
\<close>

definition callsign_fits :: "(nat \<Rightarrow> pystr) \<Rightarrow> pystr \<Rightarrow> bool" where
  "callsign_fits uc callsign = is_ascii (upper uc (take 6 (ljust 6 callsign)))"

definition address_bytes :: "(nat \<Rightarrow> pystr) \<Rightarrow> pystr \<Rightarrow> byte list" where
  "address_bytes uc callsign =
     map (\<lambda>c. word_of_int (2 * int c)) (upper uc (take 6 (ljust 6 callsign))) @ [0x60]"

definition address_field :: "(nat \<Rightarrow> pystr) \<Rightarrow> pystr list \<Rightarrow> byte list" where
  "address_field uc calls = concat (map (address_bytes uc) calls)"

text \<open>The state the differential rule is in after a run of bits.\<close>

fun nrzi_state :: "int \<Rightarrow> int list \<Rightarrow> int" where
  "nrzi_state state [] = state"
| "nrzi_state state (bit' # bits) = nrzi_state (fst (nrzi_step state bit')) bits"

text \<open>
  For the bound on the filtered samples: the gain of the filter at a constant input and
  the coefficient of the first difference of the input in its slowly varying response.
\<close>

definition hp_gain :: "real \<Rightarrow> real" where
  "hp_gain alpha = 2 * alpha / (1 + alpha)"

definition hp_lag :: "real \<Rightarrow> real" where
  "hp_lag alpha = alpha * (1 - alpha) / (1 + alpha)\<^sup>2"

text \<open>
  A list of samples is smooth after the two samples \<open>p2\<close>, \<open>p1\<close> when every sample is
  at most \<open>B\<close> in absolute value, every first difference at most \<open>D\<close> and every second
  difference at most \<open>E\<close>.
\<close>

fun smooth :: "real \<Rightarrow> real \<Rightarrow> real \<Rightarrow> real \<Rightarrow> real \<Rightarrow> int list \<Rightarrow> bool" where
  "smooth B D E p2 p1 [] = True"
| "smooth B D E p2 p1 (x # xs) =
     (\<bar>real_of_int x\<bar> \<le> B \<and> \<bar>real_of_int x - p1\<bar> \<le> D
      \<and> \<bar>real_of_int x - 2 * p1 + p2\<bar> \<le> E \<and> smooth B D E p1 (real_of_int x) xs)"

text \<open>
  A sample of a tone of amplitude 0.02 at the angle \<open>\<theta>\<close>. Two angles are one step
  apart when they differ by the phase advance of one sample of one of the two tones, up
  to whole turns.
\<close>

definition raw_sample :: "real \<Rightarrow> int" where
  "raw_sample \<theta> = py_int (0.02 * 32767 * sin \<theta>)"

definition turn_step :: "real \<Rightarrow> real \<Rightarrow> bool" where
  "turn_step \<theta> \<theta>' = (\<exists>w (k :: int). pi / 30 \<le> w \<and> w \<le> 3 * pi / 80 \<and> \<theta>' = \<theta> + w + 2 * pi * of_int k)"

fun chain :: "real \<Rightarrow> real list \<Rightarrow> bool" where
  "chain \<theta> [] = True"
| "chain \<theta> (\<theta>' # rest) = (turn_step \<theta> \<theta>' \<and> chain \<theta>' rest)"

text \<open>The angles at which \<^verbatim>\<open>afsk_encode\<close> evaluates the sine, bit by bit.\<close>

definition tone_step :: "int \<Rightarrow> real" where
  "tone_step b = 2 * pi * real_of_int (if b = 1 then MARK_TONE else SPACE_TONE) / real_of_int SAMPLE_RATE"

fun tone_angles :: "real \<Rightarrow> int list \<Rightarrow> real list" where
  "tone_angles phase [] = []"
| "tone_angles phase (b # bits) =
     map (\<lambda>t. tone_step b * real t + phase) [0..<320]
     @ tone_angles (phase + py_fmod (tone_step b * 320) (2 * pi)) bits"

section \<open>Checksum: the code computes CRC-16/X-25\<close>

lemma crc_low_bit: "(uint (r :: 16 word) AND 1 \<noteq> 0) = bit r 0"
proof -
  have "bit r 0 = bit (uint r) 0"
    by (simp add: bit_uint_iff)
  then show ?thesis
    by (simp add: and_one_eq bit_0 odd_iff_mod_2_eq_one)
qed

lemma crc_shift_uint: "crc_shift (uint r) = uint (x25_shift r)"
  unfolding crc_shift_def x25_shift_def crc_low_bit
  by (simp add: uint_xor unsigned_drop_bit_eq bintr_uint POLY_def)

lemma crc_bit_loop_uint: "crc_bit_loop k (uint r) = uint ((x25_shift ^^ k) r)"
  by (induction k arbitrary: r) (simp_all add: crc_shift_uint funpow_swap1)

lemma crc_byte_loop_uint: "crc_byte_loop (uint r) data = uint (foldl x25_byte r data)"
proof (induction data arbitrary: r)
  case Nil
  show ?case by simp
next
  case (Cons b data)
  have "uint r XOR uint b = uint (r XOR ucast b)"
    by (simp add: uint_xor uint_up_ucast is_up)
  then show ?case
    using Cons [of "x25_byte r b"] by (simp add: crc_bit_loop_uint x25_byte_def)
qed

lemma crc16_ccitt_uint: "crc16_ccitt data = uint (crc16_x25 data)"
proof -
  have "crc_byte_loop 0xFFFF data = uint (foldl x25_byte 0xFFFF data)"
    using crc_byte_loop_uint [of "0xFFFF"] by simp
  then show ?thesis
    by (simp add: crc16_ccitt_def crc16_x25_def uint_xor)
qed

lemma crc16_ccitt_range: "0 \<le> crc16_ccitt data \<and> crc16_ccitt data < 65536"
proof -
  have "uint (crc16_x25 data) < 2 ^ LENGTH(16)"
    by (rule uint_lt2p)
  then show ?thesis
    by (simp add: crc16_ccitt_uint)
qed

text \<open>
  C2. For every byte sequence, \<^verbatim>\<open>crc16_ccitt\<close> returns the value of the reflected
  CRC-16/X-25 algorithm (16-bit register initialised to 0xFFFF; each byte XORed into
  the register, then eight times: shift right, and XOR with 0x8408 when the low bit was
  1; at the end XOR with 0xFFFF). On the ASCII bytes of "123456789" it returns the
  published check value 0x906E.
\<close>

theorem crc16_ccitt_is_x25:
  "crc16_ccitt data = uint (crc16_x25 data)
   \<and> crc16_ccitt (map of_char ''123456789'') = 0x906E"
proof
  show "crc16_ccitt data = uint (crc16_x25 data)"
    by (rule crc16_ccitt_uint)
  show "crc16_ccitt (map of_char ''123456789'') = 0x906E"
    by code_simp
qed

section \<open>Bit stream: the differential rule and the length\<close>

lemma preamble_loop_eq: "preamble_loop n bitstream = bitstream @ concat (replicate n [0, 1])"
proof (induction n arbitrary: bitstream)
  case 0
  show ?case by simp
next
  case (Suc n)
  have "concat (replicate n [0, 1::int]) @ [0, 1] = [0, 1] @ concat (replicate n [0, 1])"
    by (induction n) simp_all
  then show ?case
    using Suc [of "bitstream @ [0, 1]"] by simp
qed

lemma extract_bit: "drop_bit i (uint (b :: byte)) AND 1 = (if bit b i then 1 else 0)"
proof -
  have "odd (drop_bit i (uint b)) = bit (uint b) i"
    by (simp only: bit_iff_odd_drop_bit)
  also have "\<dots> = bit b i"
    by (auto simp: bit_uint_iff dest: bit_imp_le_length)
  finally show ?thesis
    by (simp add: and_one_eq mod_2_eq_odd)
qed

lemma flip_state: "state = 0 \<or> state = 1 \<Longrightarrow> state XOR 1 = 1 - (state :: int)"
  by auto

lemma nrzi_step_bit: "state = 0 \<or> state = 1 \<Longrightarrow> fst (nrzi_step state b) = 0 \<or> fst (nrzi_step state b) = 1"
  by (auto simp: nrzi_step_def)

lemma nrzi_state_bit: "state = 0 \<or> state = 1 \<Longrightarrow> nrzi_state state bits = 0 \<or> nrzi_state state bits = 1"
  by (induction bits arbitrary: state) (simp_all add: nrzi_step_bit)

lemma nrzi_fold_append: "nrzi_fold state (xs @ ys) = nrzi_fold state xs @ nrzi_fold (nrzi_state state xs) ys"
  by (induction xs arbitrary: state) simp_all

lemma nrzi_state_append: "nrzi_state state (xs @ ys) = nrzi_state (nrzi_state state xs) ys"
  by (induction xs arbitrary: state) simp_all

lemma byte_loop_eq:
  "state = 0 \<or> state = 1 \<Longrightarrow>
   byte_loop b js (state, bitstream) =
     (nrzi_state state (map (\<lambda>i. if bit b i then 1 else 0) js),
      bitstream @ nrzi_fold state (map (\<lambda>i. if bit b i then 1 else 0) js))"
proof (induction js arbitrary: state bitstream)
  case Nil
  show ?case by simp
next
  case (Cons j js)
  show ?case
  proof (cases "bit b j")
    case True
    then show ?thesis
      using Cons.IH [of state "bitstream @ [state]"] Cons.prems
      by (simp add: extract_bit nrzi_step_def)
  next
    case False
    have "1 - state = 0 \<or> 1 - state = 1"
      using Cons.prems by auto
    then show ?thesis
      using Cons.IH [of "1 - state" "bitstream @ [1 - state]"] Cons.prems False
      by (simp add: extract_bit nrzi_step_def flip_state Let_def)
  qed
qed

lemma packet_loop_eq:
  "state = 0 \<or> state = 1 \<Longrightarrow>
   packet_loop packet (state, bitstream) =
     (nrzi_state state (concat (map lsb_first packet)),
      bitstream @ nrzi_fold state (concat (map lsb_first packet)))"
proof (induction packet arbitrary: state bitstream)
  case Nil
  show ?case by simp
next
  case (Cons b packet)
  let ?bs = "map (\<lambda>i. if bit b i then 1 else 0) [0..<8]"
  have s: "nrzi_state state ?bs = 0 \<or> nrzi_state state ?bs = 1"
    using Cons.prems by (rule nrzi_state_bit)
  show ?case
    using Cons.IH [OF s] Cons.prems
    by (simp add: byte_loop_eq lsb_first_def nrzi_fold_append nrzi_state_append del: upt_Suc)
qed

text \<open>
  C4. For every packet, \<^verbatim>\<open>generate_bitstream\<close> is the preamble bits, then the fold of
  the pure step \<open>(state, bit) \<rightarrow> (new_state, output_bit)\<close> over the bits of the packet
  (each byte least significant bit first) from the state 1, where a 0 bit flips the state,
  a 1 bit keeps it and the new state is the bit emitted, then the two closing bits.
\<close>

theorem generate_bitstream_differential:
  "generate_bitstream packet = differential_bitstream packet"
  by (simp add: generate_bitstream_def differential_bitstream_def packet_loop_eq preamble_loop_eq)

lemma length_nrzi_fold: "length (nrzi_fold state bits) = length bits"
  by (induction bits arbitrary: state) simp_all

lemma length_concat_lsb: "length (concat (map lsb_first packet)) = 8 * length packet"
  by (induction packet) (simp_all add: lsb_first_def)

lemma length_preamble: "length (concat (replicate n [0, 1::int])) = 2 * n"
  by (induction n) simp_all

lemma length_generate_bitstream:
  "length (generate_bitstream packet) = 66 + 8 * length packet"
  by (simp add: generate_bitstream_def packet_loop_eq preamble_loop_eq length_nrzi_fold
      length_concat_lsb length_preamble PREAMBLE_LENGTH_def)

text \<open>
  C5. The length of \<^verbatim>\<open>generate_bitstream(p)\<close> is
  \<open>2 * PREAMBLE_LENGTH + 8 * len(p) + 2\<close>, that is \<open>66 + 8 * len(p)\<close>, for every
  packet \<open>p\<close> (the empty one included).
\<close>

theorem generate_bitstream_length:
  "length (generate_bitstream packet) = 2 * PREAMBLE_LENGTH + 8 * length packet + 2
   \<and> 2 * PREAMBLE_LENGTH + 8 * length packet + 2 = 66 + 8 * length packet"
  by (simp add: length_generate_bitstream PREAMBLE_LENGTH_def)

section \<open>Frame: address bits and failures\<close>

lemma bytearray_of_eq:
  "bytearray_of vs =
     (if list_all (\<lambda>v. 0 \<le> v \<and> v < 256) vs then Inr (map word_of_int vs) else Inl ValueError)"
  by (induction vs) (simp_all add: byte_of_def)

lemma encode_callsign_eq:
  "encode_callsign uc callsign 0 =
     (if callsign_fits uc callsign then Inr (address_bytes uc callsign) else Inl ValueError)"
proof -
  have "list_all (\<lambda>v. 0 \<le> v \<and> v < 256) (map (\<lambda>c. push_bit 1 (int c)) s) = is_ascii s" for s
    by (induction s) (auto simp: is_ascii_def)
  then show ?thesis
    by (simp add: encode_callsign_def bytearray_of_eq callsign_fits_def address_bytes_def
        byte_of_def o_def)
qed

lemma extend_path_eq:
  "extend_path uc frame path =
     (if list_all (callsign_fits uc) path
      then Inr (frame @ concat (map (address_bytes uc) path)) else Inl ValueError)"
  by (induction path arbitrary: frame) (simp_all add: encode_callsign_eq)

lemma address_bytes_last: "address_bytes uc c \<noteq> [] \<and> last (address_bytes uc c) = 0x60"
  by (simp add: address_bytes_def)

lemma even_byte: "(2 * w :: byte) AND 1 = 0"
  by (simp add: and_one_eq mod_2_eq_odd)

lemma address_bytes_low: "list_all (\<lambda>b. b AND 1 = 0) (address_bytes uc c)"
  by (simp add: address_bytes_def list_all_iff even_byte)

lemma address_field_last:
  "calls \<noteq> [] \<Longrightarrow> address_field uc calls \<noteq> [] \<and> last (address_field uc calls) = 0x60"
proof (induction calls rule: rev_induct)
  case Nil
  then show ?case by simp
next
  case (snoc c calls)
  show ?case
    using address_bytes_last [of uc c] by (simp add: address_field_def)
qed

lemma address_field_low: "list_all (\<lambda>b. b AND 1 = 0) (address_field uc calls)"
  by (induction calls) (simp_all add: address_field_def address_bytes_low)

lemma ax25_addresses_eq:
  "ax25_addresses uc source destination path =
     (if list_all (callsign_fits uc) (destination # source # path)
      then Inr (butlast (address_field uc (destination # source # path)) @ [0x61])
      else Inl ValueError)"
proof -
  let ?calls = "destination # source # path"
  have l: "address_field uc ?calls \<noteq> [] \<and> last (address_field uc ?calls) = 0x60"
    by (rule address_field_last) simp
  have f: "address_bytes uc destination @ address_bytes uc source @ concat (map (address_bytes uc) path)
     = address_field uc ?calls"
    by (simp add: address_field_def)
  show ?thesis
    using l by (simp add: ax25_addresses_def encode_callsign_eq extend_path_eq set_last_bit_def f)
qed

lemma to_bytes2_crc: "\<exists>crc. to_bytes2_little (crc16_ccitt frame) = Inr crc"
  using crc16_ccitt_range [of frame] by (simp add: to_bytes2_little_def)

lemma ax25_frame_cases:
  "ax25_frame uc source destination path info =
     (if \<not> list_all (callsign_fits uc) (destination # source # path) then Inl ValueError
      else if \<not> is_ascii info then Inl UnicodeEncodeError
      else Inr (replicate 32 0x7E @ (butlast (address_field uc (destination # source # path)) @ [0x61])
             @ [0x03, 0xF0] @ map of_nat info
             @ [word_of_int (crc16_ccitt ((butlast (address_field uc (destination # source # path)) @ [0x61])
                  @ [0x03, 0xF0] @ map of_nat info)),
                word_of_int (drop_bit 8 (crc16_ccitt ((butlast (address_field uc (destination # source # path)) @ [0x61])
                  @ [0x03, 0xF0] @ map of_nat info)))]
             @ [0x7E]))"
  using crc16_ccitt_range
  by (simp add: ax25_frame_def ax25_addresses_eq encode_ascii_def is_ascii_def to_bytes2_little_def
      PREAMBLE_LENGTH_def FLAG_def Let_def)


lemma ascii_callsign_fits: "is_ascii callsign \<Longrightarrow> callsign_fits uc callsign"
  by (auto simp: callsign_fits_def is_ascii_def upper_def upper_char_def ljust_def list_all_iff
      dest: in_set_takeD)

lemma ascii_upper_length: "is_ascii s \<Longrightarrow> length (upper uc s) = length s"
  by (induction s) (simp_all add: is_ascii_def upper_def upper_char_def)

lemma ascii_address_length:
  assumes "is_ascii callsign"
  shows "length (address_bytes uc callsign) = 7"
proof -
  have "is_ascii (take 6 (ljust 6 callsign))"
    using assms by (auto simp: is_ascii_def ljust_def list_all_iff dest: in_set_takeD)
  then have "length (upper uc (take 6 (ljust 6 callsign))) = length (take 6 (ljust 6 callsign))"
    by (rule ascii_upper_length)
  then show ?thesis
    by (simp add: address_bytes_def ljust_def)
qed

lemma ascii_field_length:
  "list_all is_ascii calls \<Longrightarrow> length (address_field uc calls) = 7 * length calls"
  by (induction calls) (simp_all add: address_field_def ascii_address_length)

text \<open>
  C3. In every frame \<^verbatim>\<open>ax25_frame\<close> builds, the address field (the bytes between
  the 32 preamble flags and the control and PID bytes 0x03 0xF0) ends in a byte whose low
  bit is 1, and every other byte of it has the low bit 0. When the callsigns are ASCII
  the field is made of 7-byte addresses, one for the destination, one for the source and
  one for each path entry.
\<close>

theorem ax25_frame_address_bits:
  assumes "ax25_frame uc source destination path info = Inr pkt"
  shows "\<exists>addr rest.
           ax25_addresses uc source destination path = Inr addr
         \<and> pkt = replicate 32 0x7E @ addr @ [0x03, 0xF0] @ rest
         \<and> addr \<noteq> []
         \<and> (is_ascii source \<and> is_ascii destination \<and> list_all is_ascii path
              \<longrightarrow> length addr = 7 * (2 + length path))
         \<and> last addr AND 1 = 1
         \<and> list_all (\<lambda>b. b AND 1 = 0) (butlast addr)"
proof -
  let ?calls = "destination # source # path"
  let ?field = "address_field uc ?calls"
  let ?addr = "butlast ?field @ [0x61]"
  have fits: "list_all (callsign_fits uc) ?calls"
    using assms by (auto simp: ax25_frame_cases split: if_splits)
  have addr: "ax25_addresses uc source destination path = Inr ?addr"
    using fits by (simp add: ax25_addresses_eq)
  have "\<exists>rest. pkt = replicate 32 0x7E @ ?addr @ [0x03, 0xF0] @ rest"
    using assms by (auto simp: ax25_frame_cases split: if_splits)
  moreover have "?field \<noteq> []"
    using address_field_last [of ?calls uc] by simp
  then have "length ?addr = length ?field"
    by simp
  then have "list_all is_ascii ?calls \<longrightarrow> length ?addr = 7 * (2 + length path)"
    by (simp add: ascii_field_length)
  moreover have "list_all (\<lambda>b. b AND 1 = 0) (butlast ?addr)"
    using address_field_low [of uc ?calls] by (auto simp: list_all_iff dest: in_set_butlastD)
  ultimately show ?thesis
    using addr by auto
qed

theorem ax25_frame_address_bits_witness:
  "ax25_frame (\<lambda>c. [c]) (map of_char ''YourCall'') (map of_char ''IOSPY1'')
      [map of_char ''WIDE1'', map of_char ''WIDE2''] (map of_char ''hi'')
     = Inr (replicate 32 0x7E @
        [146, 158, 166, 160, 178, 98, 96, 178, 158, 170, 164, 134, 130, 96,
         174, 146, 136, 138, 98, 64, 96, 174, 146, 136, 138, 100, 64, 97] @ [3, 240] @ [104, 105, 42, 4, 126])
   \<and> (\<exists>addr.
        ax25_addresses (\<lambda>c. [c]) (map of_char ''YourCall'') (map of_char ''IOSPY1'')
          [map of_char ''WIDE1'', map of_char ''WIDE2''] = Inr addr
      \<and> length addr = 28 \<and> last addr AND 1 = 1 \<and> list_all (\<lambda>b. b AND 1 = 0) (butlast addr))"
proof -
  let ?pkt = "replicate 32 0x7E @
        [146, 158, 166, 160, 178, 98, 96, 178, 158, 170, 164, 134, 130, 96,
         174, 146, 136, 138, 98, 64, 96, 174, 146, 136, 138, 100, 64, 97] @ [3, 240] @ [104, 105, 42, 4, 126 :: byte]"
  have h: "ax25_frame (\<lambda>c. [c]) (map of_char ''YourCall'') (map of_char ''IOSPY1'')
      [map of_char ''WIDE1'', map of_char ''WIDE2''] (map of_char ''hi'') = Inr ?pkt"
    by code_simp
  have a: "is_ascii (map of_char ''YourCall'') \<and> is_ascii (map of_char ''IOSPY1'')
      \<and> list_all is_ascii [map of_char ''WIDE1'', map of_char ''WIDE2'']"
    by (simp add: is_ascii_def)
  show ?thesis
    using ax25_frame_address_bits [OF h] a h by auto
qed

text \<open>
  C8, as amended. \<^verbatim>\<open>ax25_frame\<close> fails with ValueError (the range check of
  \<^verbatim>\<open>bytearray\<close>) exactly when one of the callsigns, cut to six characters and
  upper-cased, holds a code point from 128 on; it fails with UnicodeEncodeError exactly
  when every callsign fits and the information string holds a non-ASCII character; it
  returns a packet in every other case, and so for all-ASCII inputs.
\<close>

theorem ax25_frame_errors:
  "(ax25_frame uc source destination path info = Inl ValueError
      \<longleftrightarrow> \<not> list_all (callsign_fits uc) (destination # source # path))
   \<and> (ax25_frame uc source destination path info = Inl UnicodeEncodeError
      \<longleftrightarrow> list_all (callsign_fits uc) (destination # source # path) \<and> \<not> is_ascii info)
   \<and> ((\<exists>pkt. ax25_frame uc source destination path info = Inr pkt)
      \<longleftrightarrow> list_all (callsign_fits uc) (destination # source # path) \<and> is_ascii info)
   \<and> (is_ascii source \<and> is_ascii destination \<and> list_all is_ascii path \<and> is_ascii info
      \<longrightarrow> (\<exists>pkt. ax25_frame uc source destination path info = Inr pkt))"
proof -
  have "list_all is_ascii calls \<Longrightarrow> list_all (callsign_fits uc) calls" for calls
    by (induction calls) (simp_all add: ascii_callsign_fits)
  from this [of "destination # source # path"] show ?thesis
    by (auto simp: ax25_frame_cases)
qed

lemma upper_ascii: "is_ascii s \<Longrightarrow> upper uc s = upper uc' s"
  by (induction s) (simp_all add: is_ascii_def upper_def upper_char_def)

lemma encode_callsign_ascii:
  "is_ascii (take 6 (ljust 6 callsign)) \<Longrightarrow>
   encode_callsign uc callsign ssid = encode_callsign uc' callsign ssid"
  using upper_ascii [of "take 6 (ljust 6 callsign)" uc uc'] by (simp add: encode_callsign_def)

lemma extend_path_ascii:
  "list_all (\<lambda>c. is_ascii (take 6 (ljust 6 c))) path \<Longrightarrow>
   extend_path uc frame path = extend_path uc' frame path"
proof (induction path arbitrary: frame)
  case Nil
  show ?case by simp
next
  case (Cons c path)
  then show ?case
    using encode_callsign_ascii [of c uc 0 uc'] by (simp split: sum.splits)
qed

lemma ax25_frame_ascii:
  assumes "list_all (\<lambda>c. is_ascii (take 6 (ljust 6 c))) (destination # source # path)"
  shows "ax25_frame uc source destination path info = ax25_frame uc' source destination path info"
proof -
  have "ax25_addresses uc source destination path = ax25_addresses uc' source destination path"
    using assms encode_callsign_ascii [of destination uc 0 uc']
      encode_callsign_ascii [of source uc 0 uc'] extend_path_ascii [of path uc _ uc']
    by (simp add: ax25_addresses_def split: sum.splits)
  then show ?thesis
    by (simp add: ax25_frame_def)
qed


text \<open>
  C8 as stated fails: the source callsign \<^verbatim>\<open>ABCDEF\<close> followed by U+00E9 holds a
  non-ASCII character, and the frame is built all the same, since the seventh character
  is cut off before it is encoded.
\<close>

theorem ax25_frame_errors_counterexample:
  "\<not> is_ascii (map of_char ''ABCDEF'' @ [233])
   \<and> (\<forall>uc. ax25_frame uc (map of_char ''ABCDEF'' @ [233]) (map of_char ''IOSPY1'') [] (map of_char ''hi'')
        = Inr (replicate 32 0x7E @
            [146, 158, 166, 160, 178, 98, 96, 130, 132, 134, 136, 138, 140, 97, 3, 240, 104, 105, 198, 46, 126]))"
proof
  show "\<not> is_ascii (map of_char ''ABCDEF'' @ [233])"
    by (simp add: is_ascii_def)
  have a: "list_all (\<lambda>c. is_ascii (take 6 (ljust 6 c)))
      [map of_char ''IOSPY1'', map of_char ''ABCDEF'' @ [233]]"
    by (simp add: is_ascii_def ljust_def)
  have e: "ax25_frame (\<lambda>c. [c]) (map of_char ''ABCDEF'' @ [233]) (map of_char ''IOSPY1'') [] (map of_char ''hi'')
        = Inr (replicate 32 0x7E @
            [146, 158, 166, 160, 178, 98, 96, 130, 132, 134, 136, 138, 140, 97, 3, 240, 104, 105, 198, 46, 126])"
    by code_simp
  show "\<forall>uc. ax25_frame uc (map of_char ''ABCDEF'' @ [233]) (map of_char ''IOSPY1'') [] (map of_char ''hi'')
        = Inr (replicate 32 0x7E @
            [146, 158, 166, 160, 178, 98, 96, 130, 132, 134, 136, 138, 140, 97, 3, 240, 104, 105, 198, 46, 126])"
    by (intro allI, rule trans [OF ax25_frame_ascii [OF a] e])
qed

theorem ax25_frame_errors_witness:
  "(\<exists>pkt. ax25_frame (\<lambda>c. [c]) (map of_char ''YourCall'') (map of_char ''IOSPY1'')
       [map of_char ''WIDE1'', map of_char ''WIDE2''] (map of_char ''hi'') = Inr pkt)
   \<and> ax25_frame (\<lambda>c. if c = 233 then [201] else [c]) [233] (map of_char ''IOSPY1'') []
       (map of_char ''hi'') = Inl ValueError
   \<and> ax25_frame (\<lambda>c. [c]) (map of_char ''ABC'') (map of_char ''IOSPY1'') [] [233]
       = Inl UnicodeEncodeError"
proof -
  have a: "is_ascii (map of_char ''YourCall'') \<and> is_ascii (map of_char ''IOSPY1'')
      \<and> list_all is_ascii [map of_char ''WIDE1'', map of_char ''WIDE2''] \<and> is_ascii (map of_char ''hi'')"
    by (simp add: is_ascii_def)
  have b: "\<not> list_all (callsign_fits (\<lambda>c. if c = 233 then [201] else [c]))
      [map of_char ''IOSPY1'', [233]]"
    by (simp add: callsign_fits_def is_ascii_def upper_def upper_char_def ljust_def)
  have c: "list_all (callsign_fits (\<lambda>c. [c])) [map of_char ''IOSPY1'', map of_char ''ABC'']
      \<and> \<not> is_ascii [233]"
    by (simp add: ascii_callsign_fits is_ascii_def)
  have g1: "\<exists>pkt. ax25_frame (\<lambda>c. [c]) (map of_char ''YourCall'') (map of_char ''IOSPY1'')
       [map of_char ''WIDE1'', map of_char ''WIDE2''] (map of_char ''hi'') = Inr pkt"
    using a ax25_frame_errors [of "\<lambda>c. [c]" "map of_char ''YourCall''" "map of_char ''IOSPY1''"
        "[map of_char ''WIDE1'', map of_char ''WIDE2'']" "map of_char ''hi''"]
    by blast
  have g2: "ax25_frame (\<lambda>c. if c = 233 then [201] else [c]) [233] (map of_char ''IOSPY1'') []
       (map of_char ''hi'') = Inl ValueError"
    using b ax25_frame_errors [of "\<lambda>c. if c = 233 then [201] else [c]" "[233]"
        "map of_char ''IOSPY1''" "[]" "map of_char ''hi''"]
    by blast
  have g3: "ax25_frame (\<lambda>c. [c]) (map of_char ''ABC'') (map of_char ''IOSPY1'') [] [233]
       = Inl UnicodeEncodeError"
    using c ax25_frame_errors [of "\<lambda>c. [c]" "map of_char ''ABC''" "map of_char ''IOSPY1''" "[]" "[233]"]
    by blast
  show ?thesis
    using g1 g2 g3 by blast
qed

section \<open>Tone synthesis: the phase returned\<close>

lemma py_fmod_range:
  assumes "0 < y"
  shows "0 \<le> py_fmod x y \<and> py_fmod x y < y"
proof -
  have "of_int \<lfloor>x / y\<rfloor> * y \<le> x" and "x < (of_int \<lfloor>x / y\<rfloor> + 1) * y"
    using assms by (rule floor_divide_lower, rule floor_divide_upper)
  then show ?thesis
    by (simp add: py_fmod_def algebra_simps)
qed

lemma sin_shift: "sin (x - 2 * pi * of_int k) = sin x"
proof -
  have "sin (x - 2 * pi * of_int k) = sin x \<and> cos (x - 2 * pi * of_int k) = cos x"
    unfolding sin_cos_eq_iff by (rule exI [of _ "- k"]) simp
  then show ?thesis by simp
qed

text \<open>
  C1, as amended. \<^verbatim>\<open>generate_continuous_tone\<close> returns \<open>n\<close> samples and the
  phase \<open>p + ((2*pi*f*n/SAMPLE_RATE) mod 2*pi)\<close>: the increment is reduced, not the
  sum. The phase returned differs from \<open>p + 2*pi*f*n/SAMPLE_RATE\<close> by a whole number
  of turns, so the next tone run continues the sinusoid, and it lies in
  \<open>[p, p + 2*pi)\<close>.
\<close>

theorem generate_continuous_tone_phase:
  "length (fst (generate_continuous_tone f n p a)) = nat n
   \<and> snd (generate_continuous_tone f n p a)
       = p + py_fmod (2 * pi * f * real_of_int n / real_of_int SAMPLE_RATE) (2 * pi)
   \<and> (\<exists>k :: int. snd (generate_continuous_tone f n p a)
       = (p + 2 * pi * f * real_of_int n / real_of_int SAMPLE_RATE) - 2 * pi * of_int k)
   \<and> p \<le> snd (generate_continuous_tone f n p a)
   \<and> snd (generate_continuous_tone f n p a) < p + 2 * pi
   \<and> sin (x + snd (generate_continuous_tone f n p a))
       = sin (x + (p + 2 * pi * f * real_of_int n / real_of_int SAMPLE_RATE))"
proof -
  let ?d = "2 * pi * f * real_of_int n / real_of_int SAMPLE_RATE"
  let ?k = "\<lfloor>?d / (2 * pi)\<rfloor>"
  have s: "snd (generate_continuous_tone f n p a) = p + py_fmod ?d (2 * pi)"
    by (simp add: generate_continuous_tone_def)
  have r: "0 \<le> py_fmod ?d (2 * pi) \<and> py_fmod ?d (2 * pi) < 2 * pi"
    by (rule py_fmod_range) simp
  have k: "p + py_fmod ?d (2 * pi) = (p + ?d) - 2 * pi * of_int ?k"
    by (simp add: py_fmod_def)
  have "sin (x + (p + py_fmod ?d (2 * pi))) = sin ((x + (p + ?d)) - 2 * pi * of_int ?k)"
    by (simp add: py_fmod_def algebra_simps)
  also have "\<dots> = sin (x + (p + ?d))"
    by (rule sin_shift)
  finally have c: "sin (x + (p + py_fmod ?d (2 * pi))) = sin (x + (p + ?d))" .
  have l: "length (fst (generate_continuous_tone f n p a)) = nat n"
    by (simp add: generate_continuous_tone_def)
  show ?thesis
    unfolding s using r k c l by (intro conjI exI [of _ ?k]) simp_all
qed

lemma fmod_space: "py_fmod (2 * pi * 1600 * 320 / 96000) (2 * pi) = 2 * pi / 3"
proof -
  have "\<lfloor>(16 / 3 :: real)\<rfloor> = 5"
    by (rule floor_unique) simp_all
  then show ?thesis
    by (simp add: py_fmod_def)
qed

text \<open>
  C1 as stated fails: from the starting phase \<open>4*pi/3\<close>, which \<^verbatim>\<open>afsk_encode\<close>
  reaches after four bits of the preamble, a space tone of 320 samples returns the
  phase \<open>2*pi\<close>, where the formula of the claim gives 0.
\<close>

theorem generate_continuous_tone_phase_counterexample:
  "snd (generate_continuous_tone 1600 320 (4 * pi / 3) 0.02) = 2 * pi
   \<and> py_fmod (4 * pi / 3 + 2 * pi * 1600 * 320 / real_of_int SAMPLE_RATE) (2 * pi) = 0
   \<and> \<not> snd (generate_continuous_tone 1600 320 (4 * pi / 3) 0.02) < 2 * pi"
proof -
  have a: "snd (generate_continuous_tone 1600 320 (4 * pi / 3) 0.02) = 2 * pi"
    using fmod_space by (simp add: generate_continuous_tone_def SAMPLE_RATE_def)
  have "\<lfloor>(6 :: real)\<rfloor> = 6"
    by simp
  have b: "py_fmod (4 * pi / 3 + 2 * pi * 1600 * 320 / real_of_int SAMPLE_RATE) (2 * pi) = 0"
    by (simp add: py_fmod_def SAMPLE_RATE_def)
  show ?thesis
    using a b by simp
qed

section \<open>High-pass filter: length and first output\<close>

lemma highpass_alpha_pos:
  assumes "0 < cutoff"
  shows "\<exists>alpha. highpass_alpha cutoff = Inr alpha"
proof -
  have c: "cutoff * 2 * pi \<noteq> 0"
    using assms by simp
  have "0 < 1 / (cutoff * 2 * pi)"
    using assms by simp
  moreover have "(0 :: real) < 1 / real_of_int SAMPLE_RATE"
    by (simp add: SAMPLE_RATE_def)
  ultimately have "0 < 1 / (cutoff * 2 * pi) + 1 / real_of_int SAMPLE_RATE"
    by (rule add_pos_pos)
  then have "1 / (cutoff * 2 * pi) + 1 / real_of_int SAMPLE_RATE \<noteq> 0"
    by linarith
  then show ?thesis
    unfolding highpass_alpha_def Let_def using c by (simp only: if_False) blast
qed

lemma highpass_loop_append:
  "\<exists>rest. highpass_loop alpha filtered_data prev_sample data = filtered_data @ rest
     \<and> length rest = length data"
proof (induction data arbitrary: filtered_data prev_sample)
  case Nil
  show ?case by simp
next
  case (Cons sample data)
  let ?y = "py_int (alpha * (prev_sample + real_of_int sample -
      (if filtered_data \<noteq> [] then real_of_int (last filtered_data) else real_of_int sample)))"
  obtain rest where "highpass_loop alpha (filtered_data @ [?y]) (real_of_int sample) data
      = (filtered_data @ [?y]) @ rest \<and> length rest = length data"
    using Cons [of "filtered_data @ [?y]" "real_of_int sample"] by blast
  then show ?case
    by (intro exI [of _ "?y # rest"]) (simp add: Let_def)
qed

lemma highpass_loop_first:
  "\<exists>rest. highpass_loop alpha [] 0 (sample # data) = 0 # rest \<and> length rest = length data"
proof -
  obtain rest where "highpass_loop alpha [0] (real_of_int sample) data = [0] @ rest
      \<and> length rest = length data"
    using highpass_loop_append by blast
  then show ?thesis
    by (simp add: py_int_def)
qed

text \<open>
  C10. For every input list and every positive cutoff (the default 350 is one),
  \<^verbatim>\<open>highpass_filter\<close> returns a list of the length of its input, and the first
  element of the output for a non-empty input is 0.
\<close>

theorem highpass_filter_length_first:
  assumes "0 < cutoff"
  shows "\<exists>ys. highpass_filter data cutoff = Inr ys \<and> length ys = length data
           \<and> (data \<noteq> [] \<longrightarrow> hd ys = 0)"
proof -
  obtain alpha where a: "highpass_alpha cutoff = Inr alpha"
    using highpass_alpha_pos [OF assms] by blast
  show ?thesis
  proof (cases data)
    case Nil
    then show ?thesis using a by (simp add: highpass_filter_def)
  next
    case (Cons sample rest)
    obtain ys where "highpass_loop alpha [] 0 (sample # rest) = 0 # ys \<and> length ys = length rest"
      using highpass_loop_first by blast
    then show ?thesis
      using a Cons by (simp add: highpass_filter_def)
  qed
qed

theorem highpass_filter_length_first_witness:
  "(0 :: real) < 350 \<and> (\<exists>ys. highpass_filter [5, -3, 7] 350 = Inr ys \<and> length ys = 3 \<and> hd ys = 0)"
  using highpass_filter_length_first [of 350 "[5, -3, 7]"] by (simp add: numeral_3_eq_3)

section \<open>Doubles: rounding and truncation\<close>

text \<open>
  Rounding to the nearest double moves a number by at most \<open>1 / 2 ^ 53\<close> of its size,
  an integer below \<open>2 ^ 53\<close> is a double, and a number between \<open>2 ^ n\<close> and
  \<open>2 ^ (n + 1)\<close> with \<open>n \<le> 52\<close> is rounded on the grid of step \<open>1 / 2 ^ (52 - n)\<close>.
\<close>

lemma round_half_even_error: "\<bar>real_of_int (round_half_even x) - x\<bar> \<le> 1 / 2"
proof -
  have "real_of_int \<lfloor>x\<rfloor> \<le> x" and "x < real_of_int \<lfloor>x\<rfloor> + 1"
    by linarith+
  then show ?thesis
    by (auto simp: round_half_even_def Let_def)
qed

lemma round_half_even_of_int: "round_half_even (of_int k) = k"
  by (simp add: round_half_even_def)

lemma fl64_error: "\<bar>fl64 x - x\<bar> \<le> \<bar>x\<bar> / 2 ^ 53"
proof (cases "x = 0")
  case True
  then show ?thesis by (simp add: fl64_def)
next
  case False
  let ?L = "\<lfloor>log 2 \<bar>x\<bar>\<rfloor>"
  let ?s = "(2 :: real) powr of_int (?L - 52)"
  have s: "0 < ?s"
    by simp
  have "fl64 x - x = (real_of_int (round_half_even (x / ?s)) - x / ?s) * ?s"
    using False s by (simp add: fl64_def Let_def algebra_simps)
  then have "\<bar>fl64 x - x\<bar> = \<bar>real_of_int (round_half_even (x / ?s)) - x / ?s\<bar> * ?s"
    using s by (simp add: abs_mult)
  also have "\<dots> \<le> 1 / 2 * ?s"
    using s round_half_even_error [of "x / ?s"] by (intro mult_right_mono) simp_all
  finally have e: "\<bar>fl64 x - x\<bar> \<le> ?s / 2"
    by simp
  have "2 powr of_int ?L \<le> 2 powr log 2 \<bar>x\<bar>"
    by (intro powr_mono) simp_all
  then have "2 powr of_int ?L \<le> \<bar>x\<bar>"
    using False by simp
  moreover have "2 powr of_int ?L = ?s * 2 ^ 52"
  proof -
    have "2 powr of_int ?L = 2 powr (of_int (?L - 52) + 52)"
      by simp
    also have "\<dots> = ?s * 2 powr 52"
      by (simp only: powr_add)
    finally show ?thesis
      by simp
  qed
  ultimately have "?s * 2 ^ 52 \<le> \<bar>x\<bar>"
    by simp
  then have "?s / 2 \<le> \<bar>x\<bar> / 2 ^ 53"
    by simp
  then show ?thesis
    using e by linarith
qed

lemma fl64_bracket:
  fixes n :: nat
  assumes n: "n \<le> 52" and lo: "2 ^ n \<le> \<bar>x\<bar>" and hi: "\<bar>x\<bar> < 2 ^ Suc n"
  shows "fl64 x = real_of_int (round_half_even (x * 2 ^ (52 - n))) / 2 ^ (52 - n)"
proof -
  have "(0 :: real) < 2 ^ n"
    by simp
  then have p: "0 < \<bar>x\<bar>"
    using lo by linarith
  then have x: "x \<noteq> 0"
    by auto
  have "(2 :: real) powr real_of_int (int n) = 2 ^ n"
    by (simp add: powr_realpow)
  moreover have "(2 :: real) powr real_of_int (int n + 1) = 2 ^ Suc n"
    using powr_realpow [of 2 "Suc n"] by (simp add: add.commute)
  ultimately have "\<lfloor>log 2 \<bar>x\<bar>\<rfloor> = int n"
    using lo hi p by (subst floor_log_eq_powr_iff) simp_all
  then have e: "\<lfloor>log 2 \<bar>x\<bar>\<rfloor> - 52 = - int (52 - n)"
    using n by simp
  have s: "(2 :: real) powr - real (52 - n) = 1 / 2 ^ (52 - n)"
    using powr_realpow [of 2 "52 - n"] by (simp add: powr_minus_divide)
  show ?thesis
    using x by (simp add: fl64_def Let_def e s)
qed

lemma fl64_of_int:
  assumes "\<bar>k\<bar> < 2 ^ 53"
  shows "fl64 (real_of_int k) = real_of_int k"
proof (cases "k = 0")
  case True
  then show ?thesis by (simp add: fl64_def)
next
  case False
  then have "1 \<le> nat \<bar>k\<bar>"
    by simp
  then obtain n where n: "2 ^ n \<le> nat \<bar>k\<bar>" "nat \<bar>k\<bar> < 2 ^ (n + 1)"
    using ex_power_ivl1 [of 2 "nat \<bar>k\<bar>"] by auto
  have "int (2 ^ n) \<le> int (nat \<bar>k\<bar>)"
    using n(1) by (simp only: of_nat_le_iff)
  then have "(2 :: int) ^ n \<le> \<bar>k\<bar>"
    by simp
  then have "(2 :: int) ^ n < 2 ^ 53"
    using assms by linarith
  then have "n < 53"
    by (rule power_less_imp_less_exp [rotated]) simp
  then have n52: "n \<le> 52"
    by simp
  have lo: "2 ^ n \<le> \<bar>real_of_int k\<bar>"
  proof -
    have "real (2 ^ n) \<le> real (nat \<bar>k\<bar>)"
      using n(1) by (simp only: of_nat_le_iff)
    then show ?thesis by simp
  qed
  have hi: "\<bar>real_of_int k\<bar> < 2 ^ Suc n"
  proof -
    have "real (nat \<bar>k\<bar>) < real (2 ^ (n + 1))"
      using n(2) by (simp only: of_nat_less_iff)
    then show ?thesis by simp
  qed
  have "real_of_int k * 2 ^ (52 - n) = real_of_int (k * 2 ^ (52 - n))"
    by simp
  then have "round_half_even (real_of_int k * 2 ^ (52 - n)) = k * 2 ^ (52 - n)"
    by (simp only: round_half_even_of_int)
  then show ?thesis
    unfolding fl64_bracket [OF n52 lo hi] by simp
qed


lemma fl64_product_error:
  assumes "\<bar>a * b\<bar> \<le> K"
  shows "\<bar>fl64 (fl64 a * fl64 b) - a * b\<bar> \<le> 4 * K / 2 ^ 53"
proof -
  define u :: real where "u = 1 / 2 ^ 53"
  define c where "c = \<bar>a * b\<bar>"
  have u: "0 < u" "u \<le> 1 / 4"
    by (simp_all add: u_def)
  have c: "0 \<le> c" "c = \<bar>a\<bar> * \<bar>b\<bar>"
    by (simp_all add: c_def abs_mult)
  have ea: "\<bar>fl64 a - a\<bar> \<le> \<bar>a\<bar> * u"
    using fl64_error [of a] by (simp add: u_def)
  have eb: "\<bar>fl64 b - b\<bar> \<le> \<bar>b\<bar> * u"
    using fl64_error [of b] by (simp add: u_def)
  have "\<bar>fl64 b\<bar> \<le> \<bar>b\<bar> + \<bar>b\<bar> * u"
    using eb by linarith
  then have bb: "\<bar>fl64 b\<bar> \<le> \<bar>b\<bar> * (1 + u)"
    by (simp add: algebra_simps)
  have "fl64 a * fl64 b - a * b = (fl64 a - a) * fl64 b + a * (fl64 b - b)"
    by (simp add: algebra_simps)
  then have "\<bar>fl64 a * fl64 b - a * b\<bar> \<le> \<bar>(fl64 a - a) * fl64 b\<bar> + \<bar>a * (fl64 b - b)\<bar>"
    by (simp only: abs_triangle_ineq)
  also have "\<dots> = \<bar>fl64 a - a\<bar> * \<bar>fl64 b\<bar> + \<bar>a\<bar> * \<bar>fl64 b - b\<bar>"
    by (simp only: abs_mult)
  also have "\<dots> \<le> (\<bar>a\<bar> * u) * (\<bar>b\<bar> * (1 + u)) + \<bar>a\<bar> * (\<bar>b\<bar> * u)"
    using u(1) by (intro add_mono mult_mono ea eb bb) simp_all
  also have "\<dots> = c * (u * (2 + u))"
    by (simp add: c(2) algebra_simps)
  finally have p: "\<bar>fl64 a * fl64 b - a * b\<bar> \<le> c * (u * (2 + u))" .
  then have "\<bar>fl64 a * fl64 b\<bar> \<le> c + c * (u * (2 + u))"
    unfolding c_def by linarith
  then have "\<bar>fl64 a * fl64 b\<bar> * u \<le> (c + c * (u * (2 + u))) * u"
    using u(1) by (intro mult_right_mono) simp_all
  moreover have "\<bar>fl64 (fl64 a * fl64 b) - fl64 a * fl64 b\<bar> \<le> \<bar>fl64 a * fl64 b\<bar> * u"
    using fl64_error [of "fl64 a * fl64 b"] by (simp add: u_def)
  ultimately have "\<bar>fl64 (fl64 a * fl64 b) - a * b\<bar> \<le> c * (u * (2 + u)) + (c + c * (u * (2 + u))) * u"
    using p by linarith
  also have "\<dots> = c * (u * (3 + u * (3 + u)))"
    by (simp add: algebra_simps)
  also have "\<dots> \<le> c * (u * 4)"
  proof (rule mult_left_mono [OF _ c(1)])
    have "u * (3 + u) \<le> (1 / 4) * (3 + 1 / 4)"
      using u by (intro mult_mono) simp_all
    then have "3 + u * (3 + u) \<le> 4"
      by simp
    then show "u * (3 + u * (3 + u)) \<le> u * 4"
      using u(1) by (intro mult_left_mono) simp_all
  qed
  also have "\<dots> \<le> K * (u * 4)"
    using assms u(1) unfolding c_def by (intro mult_right_mono) simp_all
  finally show ?thesis
    by (simp add: u_def)
qed

lemma fl64_zero: "fl64 0 = 0"
  by (simp add: fl64_def)

lemma fl64_one: "fl64 1 = 1"
  using fl64_of_int [of 1] by simp


lemma py_int_of_int: "py_int (real_of_int k) = k"
  by (simp add: py_int_def)

lemma py_int_error: "\<bar>real_of_int (py_int z) - z\<bar> < 1"
proof (cases "0 \<le> z")
  case True
  have "\<bar>real_of_int \<lfloor>z\<rfloor> - z\<bar> < 1"
    by linarith
  then show ?thesis
    using True by (simp only: py_int_def if_True)
next
  case False
  have "\<bar>real_of_int \<lceil>z\<rceil> - z\<bar> < 1"
    by linarith
  then show ?thesis
    using False by (simp only: py_int_def if_False)
qed

lemma py_int_abs: "\<bar>real_of_int (py_int z)\<bar> \<le> \<bar>z\<bar>"
proof (cases "0 \<le> z")
  case True
  have "real_of_int \<lfloor>z\<rfloor> \<le> z" and "0 \<le> real_of_int \<lfloor>z\<rfloor>"
    using True by simp_all
  then have "\<bar>real_of_int \<lfloor>z\<rfloor>\<bar> \<le> \<bar>z\<bar>"
    by linarith
  then show ?thesis
    using True by (simp only: py_int_def if_True)
next
  case False
  have "z \<le> real_of_int \<lceil>z\<rceil>" and "real_of_int \<lceil>z\<rceil> \<le> 0"
    using False by (simp_all add: ceiling_le_iff)
  then have "\<bar>real_of_int \<lceil>z\<rceil>\<bar> \<le> \<bar>z\<bar>"
    by linarith
  then show ?thesis
    using False by (simp only: py_int_def if_False)
qed

text \<open>
  The rescaling of line 102 on a sample that is at most \<open>max_amplitude\<close> in absolute
  value: the exact product is at most 32767, the three roundings move it by at most
  \<open>1 / 2 ^ 36\<close>, and the truncation by less than 1.
\<close>

lemma rescale_product:
  assumes "0 < m" and "\<bar>s\<bar> \<le> m"
  shows "\<bar>real_of_int s * (32767 / real_of_int m)\<bar> \<le> 32767"
proof -
  have "\<bar>real_of_int s\<bar> \<le> real_of_int m"
    using assms(2) by linarith
  then have "\<bar>real_of_int s\<bar> * 32767 \<le> 32767 * real_of_int m"
    by simp
  then show ?thesis
    using assms(1) by (simp add: abs_mult pos_divide_le_eq)
qed

lemma rescale_rounding:
  assumes "0 < m" and "\<bar>s\<bar> \<le> m"
  shows "\<bar>fl64 (fl64 (real_of_int s) * fl64 (32767 / real_of_int m))
           - real_of_int s * (32767 / real_of_int m)\<bar> \<le> 1 / 2 ^ 36"
proof -
  have "\<bar>fl64 (fl64 (real_of_int s) * fl64 (32767 / real_of_int m))
           - real_of_int s * (32767 / real_of_int m)\<bar> \<le> 4 * 32767 / 2 ^ 53"
    by (rule fl64_product_error [OF rescale_product [OF assms]])
  moreover have "(4 * 32767 / 2 ^ 53 :: real) \<le> 1 / 2 ^ 36"
    by simp
  ultimately show ?thesis
    by (rule order_trans)
qed

lemma rescale_error:
  assumes "0 < m" and "\<bar>s\<bar> \<le> m"
  shows "\<bar>real_of_int (rescale m s) - real_of_int s * (32767 / real_of_int m)\<bar> < 1 + 1 / 2 ^ 36"
  using rescale_rounding [OF assms]
    py_int_error [of "fl64 (fl64 (real_of_int s) * fl64 (32767 / real_of_int m))"]
  unfolding rescale_def by linarith

lemma rescale_bound:
  assumes "0 < m" and "\<bar>s\<bar> \<le> m"
  shows "\<bar>rescale m s\<bar> \<le> 32767"
proof -
  let ?z = "fl64 (fl64 (real_of_int s) * fl64 (32767 / real_of_int m))"
  have "(1 / 2 ^ 36 :: real) < 1"
    by simp
  then have "\<bar>?z\<bar> < 32768"
    using rescale_rounding [OF assms] rescale_product [OF assms] by linarith
  then have "\<bar>real_of_int (rescale m s)\<bar> < 32768"
    using py_int_abs [of ?z] unfolding rescale_def by linarith
  then have "\<bar>rescale m s\<bar> < 32768"
    by linarith
  then show ?thesis
    by simp
qed

lemma rescale_full:
  assumes "\<bar>s\<bar> \<le> 32767"
  shows "rescale 32767 s = s"
proof -
  have "\<bar>s\<bar> < 2 ^ 53"
    using assms by simp
  then have "fl64 (real_of_int s) = real_of_int s"
    by (rule fl64_of_int)
  then show ?thesis
    by (simp add: rescale_def fl64_one py_int_of_int)
qed

section \<open>Audio pipeline: the normalization step\<close>

lemma fold_max_ge:
  "m0 \<le> fold (\<lambda>x m. max m \<bar>x\<bar>) xs m0 \<and> (\<forall>x\<in>set xs. \<bar>x\<bar> \<le> fold (\<lambda>x m. max m \<bar>x\<bar>) xs (m0 :: int))"
proof (induction xs arbitrary: m0)
  case Nil
  show ?case by simp
next
  case (Cons x xs)
  show ?case
    using Cons [of "max m0 \<bar>x\<bar>"] by auto
qed

lemma fold_max_in:
  "fold (\<lambda>x m. max m \<bar>x\<bar>) xs m0 = m0 \<or> fold (\<lambda>x m. max m \<bar>x\<bar>) xs (m0 :: int) \<in> abs ` set xs"
proof (induction xs arbitrary: m0)
  case Nil
  show ?case by simp
next
  case (Cons x xs)
  show ?case
    using Cons [of "max m0 \<bar>x\<bar>"] by (auto simp: max_def split: if_splits)
qed

lemma max_abs_eq:
  assumes "audio \<noteq> []"
  shows "max_abs audio = Inr (Max (abs ` set audio))"
proof -
  obtain s rest where a: "audio = s # rest"
    using assms by (cases audio) auto
  let ?m = "fold (\<lambda>x m. max m \<bar>x\<bar>) rest \<bar>s\<bar>"
  have "?m \<in> abs ` set audio"
    using fold_max_in [of rest "\<bar>s\<bar>"] a by auto
  moreover have "\<And>y. y \<in> abs ` set audio \<Longrightarrow> y \<le> ?m"
    using fold_max_ge [of "\<bar>s\<bar>" rest] a by auto
  ultimately have "Max (abs ` set audio) = ?m"
    by (intro Max_eqI) auto
  then show ?thesis
    by (simp add: max_abs_def a)
qed


lemma tone_length: "length (fst (generate_continuous_tone f DURATION_PER_BIT p a)) = 320"
  by (simp add: generate_continuous_tone_def DURATION_PER_BIT_def SAMPLE_RATE_def BAUD_RATE_def)

lemma tone_loop_Cons:
  "tone_loop audio phase (b # bits) =
     tone_loop
       (audio @ fst (generate_continuous_tone (real_of_int (if b = 1 then MARK_TONE else SPACE_TONE))
          DURATION_PER_BIT phase 0.02))
       (snd (generate_continuous_tone (real_of_int (if b = 1 then MARK_TONE else SPACE_TONE))
          DURATION_PER_BIT phase 0.02))
       bits"
  by (simp add: case_prod_beta)

lemma tone_loop_length:
  "length (fst (tone_loop audio phase bits)) = length audio + 320 * length bits"
proof (induction bits arbitrary: audio phase)
  case Nil
  show ?case by simp
next
  case (Cons b bits)
  show ?case
    unfolding tone_loop_Cons Cons by (simp add: tone_length)
qed

text \<open>
  Along the bit stream the phase of \<^verbatim>\<open>afsk_encode\<close> grows by a third of a turn at
  every space bit and is never reduced: after the first four bits of the preamble it is
  \<open>4*pi/3\<close>.
\<close>

lemma fmod_mark: "py_fmod (2 * pi * 1800 * 320 / 96000) (2 * pi) = 0"
  by (simp add: py_fmod_def)

lemma tone_phase:
  "snd (generate_continuous_tone (real_of_int (if b = 1 then MARK_TONE else SPACE_TONE)) DURATION_PER_BIT phase 0.02)
   = phase + (if b = 1 then 0 else 2 * pi / 3)"
  using fmod_mark fmod_space
  by (simp add: generate_continuous_tone_def DURATION_PER_BIT_def SAMPLE_RATE_def BAUD_RATE_def
      MARK_TONE_def SPACE_TONE_def)

lemma tone_loop_phase:
  "snd (tone_loop audio phase bits) = phase + 2 * pi / 3 * real (length (filter (\<lambda>b. b \<noteq> 1) bits))"
proof (induction bits arbitrary: audio phase)
  case Nil
  show ?case by simp
next
  case (Cons b bits)
  show ?case
    unfolding tone_loop_Cons Cons tone_phase by (simp add: algebra_simps)
qed

lemma preamble_phase: "snd (tone_loop [] 0 [0, 1, 0, 1]) = 4 * pi / 3"
  unfolding tone_loop_phase by simp

lemma normalize_length:
  "audio \<noteq> [] \<Longrightarrow> \<exists>ys. normalize audio = Inr ys \<and> length ys = length audio"
  by (simp add: normalize_def max_abs_eq)



text \<open>
  C9. Normalizing a non-empty buffer whose maximum absolute sample value is already
  32767 leaves every sample unchanged.
\<close>

theorem normalize_idempotent:
  assumes "audio \<noteq> []" and "Max (abs ` set audio) = 32767"
  shows "normalize audio = Inr audio"
proof -
  have "\<bar>s\<bar> \<le> 32767" if "s \<in> set audio" for s
    using Max_ge [of "abs ` set audio" "\<bar>s\<bar>"] that assms(2) by simp
  then have "map (\<lambda>sample. rescale 32767 sample) audio = audio"
    by (intro map_idI rescale_full)
  then show ?thesis
    using assms by (simp add: normalize_def max_abs_eq)
qed

theorem normalize_idempotent_witness:
  "normalize [32767, -5, 0, 120] = Inr [32767, -5, 0, 120]"
proof -
  have "Max (abs ` set [32767, -5, 0, 120 :: int]) = 32767"
    by simp
  then show ?thesis
    using normalize_idempotent [of "[32767, -5, 0, 120]"] by simp
qed

lemma highpass_default_length:
  "\<exists>ys. highpass_filter data 350 = Inr ys \<and> length ys = length data"
proof -
  have "\<exists>alpha. highpass_alpha 350 = Inr alpha"
    by (simp add: highpass_alpha_def Let_def SAMPLE_RATE_def add_pos_pos less_imp_neq [THEN not_sym])
  then obtain alpha where a: "highpass_alpha 350 = Inr alpha"
    by blast
  obtain rest where "highpass_loop alpha [] 0 data = [] @ rest \<and> length rest = length data"
    using highpass_loop_append by blast
  then show ?thesis
    using a by (simp add: highpass_filter_def)
qed

lemma afsk_encode_total:
  "\<exists>ys. afsk_encode packet = Inr ys \<and> length ys = 320 * (66 + 8 * length packet)"
proof -
  let ?audio = "fst (tone_loop [] 0 (generate_bitstream packet))"
  have l: "length ?audio = 320 * (66 + 8 * length packet)"
    by (simp add: tone_loop_length length_generate_bitstream)
  then have "?audio \<noteq> []"
    by auto
  then obtain a where a: "normalize ?audio = Inr a \<and> length a = length ?audio"
    using normalize_length by blast
  obtain ys where "highpass_filter a 350 = Inr ys \<and> length ys = length a"
    using highpass_default_length by blast
  then show ?thesis
    using a l by (simp add: afsk_encode_def case_prod_beta)
qed

section \<open>Audio pipeline: the filtered samples fit 16 bits\<close>

text \<open>
  The tones are 1600 and 1800 Hz at 96000 samples a second, so consecutive samples of the
  normalized signal differ little and its second differences are smaller still. The
  filter \<open>y[n] = alpha * (x[n-1] + x[n] - y[n-1])\<close> follows such an input as
  \<open>g * x[n] - c * (x[n] - x[n-1])\<close> up to an error \<open>v[n]\<close> with
  \<open>v[n] = - alpha * v[n-1] - alpha * c * (x[n] - 2 * x[n-1] + x[n-2]) + rounding\<close>,
  which stays bounded; with \<open>g < 1\<close> the output stays below full scale.
\<close>

lemma sum5: "(\<Sum>m<5. f m) = f 0 + f 1 + f 2 + f 3 + f 4" for f :: "nat \<Rightarrow> real"
  by (simp add: eval_nat_numeral)

lemma sin_poly5: "\<bar>sin x - (x - x ^ 3 / 6)\<bar> \<le> \<bar>x\<bar> ^ 5 / 120" for x :: real
proof -
  have c: "sin_coeff 0 = 0" "sin_coeff 1 = 1" "sin_coeff 2 = 0" "sin_coeff 3 = - 1 / 6" "sin_coeff 4 = 0"
    by (simp_all add: sin_coeff_def fact_numeral)
  have s: "(\<Sum>m<5. sin_coeff m * x ^ m) = x - x ^ 3 / 6"
    unfolding sum5 c by simp
  have f: "inverse (fact 5) * \<bar>x\<bar> ^ 5 = \<bar>x\<bar> ^ 5 / 120"
    by (simp add: fact_numeral field_simps)
  show ?thesis
    using Maclaurin_sin_bound [of x 5] unfolding s f .
qed

lemma pi_gt_31: "31 / 10 < pi"
proof (rule ccontr)
  assume "\<not> 31 / 10 < pi"
  then have le: "pi / 6 \<le> 31 / 60"
    by simp
  have "sin (pi / 6) \<le> sin (31 / 60)"
  proof (rule sin_monotone_2pi_le)
    show "- (pi / 2) \<le> pi / 6" by simp
    show "pi / 6 \<le> 31 / 60" by (rule le)
    show "(31 / 60 :: real) \<le> pi / 2" using pi_ge_two by simp
  qed
  moreover have "sin (31 / 60 :: real) < 1 / 2"
  proof -
    have "sin (31 / 60 :: real) \<le> (31 / 60 - (31 / 60) ^ 3 / 6) + \<bar>31 / 60\<bar> ^ 5 / 120"
      using sin_poly5 [of "31 / 60"] by linarith
    also have "\<dots> < 1 / 2"
      by (simp add: power_divide)
    finally show ?thesis .
  qed
  ultimately show False
    by (simp add: sin_30)
qed

lemma pi_lt_315: "pi < 315 / 100"
proof (rule ccontr)
  assume "\<not> pi < 315 / 100"
  then have ge: "525 / 1000 \<le> pi / 6"
    by simp
  have "sin (525 / 1000) \<le> sin (pi / 6)"
  proof (rule sin_monotone_2pi_le)
    show "- (pi / 2) \<le> (525 / 1000 :: real)"
      using pi_ge_two by simp
    show "525 / 1000 \<le> pi / 6" by (rule ge)
    show "pi / 6 \<le> pi / 2" by simp
  qed
  moreover have "1 / 2 < sin (525 / 1000 :: real)"
  proof -
    have "(1 / 2 :: real) < (525 / 1000 - (525 / 1000) ^ 3 / 6) - \<bar>525 / 1000\<bar> ^ 5 / 120"
      by (simp add: power_divide)
    also have "\<dots> \<le> sin (525 / 1000)"
      using sin_poly5 [of "525 / 1000"] by linarith
    finally show ?thesis .
  qed
  ultimately show False
    by (simp add: sin_30)
qed

lemma sin_step: "\<bar>sin (x + w) - sin x\<bar> \<le> \<bar>w\<bar>" for x w :: real
proof -
  have "sin (x + w) - sin x = 2 * sin (w / 2) * cos ((x + w + x) / 2)"
    using sin_diff_sin [of "x + w" x] by simp
  then have "\<bar>sin (x + w) - sin x\<bar> = 2 * \<bar>sin (w / 2)\<bar> * \<bar>cos ((x + w + x) / 2)\<bar>"
    by (simp add: abs_mult)
  also have "\<dots> \<le> 2 * \<bar>w / 2\<bar> * 1"
    by (intro mult_mono mult_nonneg_nonneg abs_sin_x_le_abs_x) simp_all
  finally show ?thesis
    by simp
qed

lemma one_minus_cos: "1 - cos a \<le> a\<^sup>2 / 2" for a :: real
proof -
  have "1 - cos a = 2 * (sin (a / 2))\<^sup>2"
    using cos_double_sin [of "a / 2"] by simp
  also have "\<dots> \<le> 2 * (a / 2)\<^sup>2"
    using abs_sin_x_le_abs_x [of "a / 2"] by (simp add: abs_le_square_iff [symmetric] del: abs_divide)
  finally show ?thesis
    by (simp add: power2_eq_square)
qed

lemma sin_second_difference:
  "\<bar>sin (x + b) - 2 * sin x + sin (x - a)\<bar> \<le> a\<^sup>2 / 2 + b\<^sup>2 / 2 + \<bar>b - a\<bar>"
  for x a b :: real
proof -
  let ?P = "cos x * (sin b - sin a)"
  let ?Q = "sin x * ((1 - cos a) + (1 - cos b))"
  have e: "sin (x + b) - 2 * sin x + sin (x - a) = ?P - ?Q"
    unfolding sin_add sin_diff by (simp add: algebra_simps)
  have p: "\<bar>?P\<bar> \<le> 1 * \<bar>b - a\<bar>"
    unfolding abs_mult using sin_step [of a "b - a"]
    by (intro mult_mono) simp_all
  have "\<bar>(1 - cos a) + (1 - cos b)\<bar> \<le> a\<^sup>2 / 2 + b\<^sup>2 / 2"
    using one_minus_cos [of a] one_minus_cos [of b] cos_le_one [of a] cos_le_one [of b]
    by linarith
  then have q: "\<bar>?Q\<bar> \<le> 1 * (a\<^sup>2 / 2 + b\<^sup>2 / 2)"
    unfolding abs_mult by (intro mult_mono) simp_all
  have "\<bar>?P - ?Q\<bar> \<le> \<bar>?P\<bar> + \<bar>?Q\<bar>"
    by (rule abs_triangle_ineq4)
  also have "\<dots> \<le> 1 * \<bar>b - a\<bar> + 1 * (a\<^sup>2 / 2 + b\<^sup>2 / 2)"
    by (rule add_mono [OF p q])
  finally show ?thesis
    unfolding e by simp
qed

lemma hp_products:
  assumes "0 < alpha"
  shows "hp_gain alpha * (1 + alpha) = 2 * alpha"
    and "hp_lag alpha * ((1 + alpha) * (1 + alpha)) = alpha * (1 - alpha)"
  using assms by (simp_all add: hp_gain_def hp_lag_def power2_eq_square)

lemma hp_relations:
  assumes "0 < alpha"
  shows "alpha - hp_gain alpha + hp_lag alpha + alpha * hp_lag alpha = 0"
    and "alpha - alpha * hp_gain alpha - hp_lag alpha - alpha * hp_lag alpha = 0"
proof -
  let ?d = "1 + alpha" and ?g = "hp_gain alpha" and ?c = "hp_lag alpha"
  have d: "?d * ?d \<noteq> 0"
    using assms by simp
  have "(alpha - ?g + ?c + alpha * ?c) * (?d * ?d)
      = alpha * (?d * ?d) - (?g * ?d) * ?d + ?c * (?d * ?d) + alpha * (?c * (?d * ?d))"
    by (simp add: algebra_simps)
  also have "\<dots> = 0"
    unfolding hp_products [OF assms] by (simp add: algebra_simps)
  finally show "alpha - ?g + ?c + alpha * ?c = 0"
    using d by simp
  have "(alpha - alpha * ?g - ?c - alpha * ?c) * (?d * ?d)
      = alpha * (?d * ?d) - alpha * ((?g * ?d) * ?d) - ?c * (?d * ?d) - alpha * (?c * (?d * ?d))"
    by (simp add: algebra_simps)
  also have "\<dots> = 0"
    unfolding hp_products [OF assms] by (simp add: algebra_simps)
  finally show "alpha - alpha * ?g - ?c - alpha * ?c = 0"
    using d by simp
qed

lemma hp_step_identity:
  assumes "0 < alpha"
  shows "alpha * (p1 + x - y) - hp_gain alpha * x + hp_lag alpha * (x - p1)
       = - alpha * (y - hp_gain alpha * p1 + hp_lag alpha * (p1 - p2))
         - alpha * hp_lag alpha * (x - 2 * p1 + p2)"
proof -
  let ?g = "hp_gain alpha" and ?c = "hp_lag alpha"
  have "alpha * (p1 + x - y) - ?g * x + ?c * (x - p1)
        + alpha * (y - ?g * p1 + ?c * (p1 - p2)) + alpha * ?c * (x - 2 * p1 + p2)
      = x * (alpha - ?g + ?c + alpha * ?c) + p1 * (alpha - alpha * ?g - ?c - alpha * ?c)"
    by (simp add: algebra_simps)
  also have "\<dots> = 0"
    using hp_relations [OF assms] by simp
  finally show ?thesis
    by (simp add: algebra_simps)
qed

lemma hp_nonneg:
  assumes "0 < alpha" and "alpha < 1"
  shows "0 \<le> hp_gain alpha" and "0 \<le> hp_lag alpha"
  using assms by (simp_all add: hp_gain_def hp_lag_def)

lemma highpass_step_bounded:
  fixes alpha B D E V p1 p2 y :: real
  assumes a: "0 < alpha" "alpha < 1"
    and inv: "alpha * V + alpha * hp_lag alpha * E + 1 \<le> V"
    and fin: "hp_gain alpha * B + hp_lag alpha * D + V \<le> B"
    and x: "\<bar>x\<bar> \<le> B" "\<bar>x - p1\<bar> \<le> D" "\<bar>x - 2 * p1 + p2\<bar> \<le> E"
    and v: "\<bar>y - hp_gain alpha * p1 + hp_lag alpha * (p1 - p2)\<bar> \<le> V"
    and e: "\<bar>y' - alpha * (p1 + x - y)\<bar> < 1"
  shows "\<bar>y' - hp_gain alpha * x + hp_lag alpha * (x - p1)\<bar> \<le> V \<and> \<bar>y'\<bar> \<le> B"
proof -
  let ?g = "hp_gain alpha" and ?c = "hp_lag alpha"
  let ?v = "y - ?g * p1 + ?c * (p1 - p2)"
  let ?v' = "y' - ?g * x + ?c * (x - p1)"
  have g: "0 \<le> ?g" and c: "0 \<le> ?c"
    using hp_nonneg [OF a] by simp_all
  have "?v' = (y' - alpha * (p1 + x - y)) - alpha * ?v - alpha * ?c * (x - 2 * p1 + p2)"
    using hp_step_identity [OF a(1), of p1 x y p2] by simp
  moreover have "\<bar>A - B - C\<bar> \<le> \<bar>A\<bar> + \<bar>B\<bar> + \<bar>C\<bar>" for A B C :: real
    by linarith
  ultimately have "\<bar>?v'\<bar> \<le> \<bar>y' - alpha * (p1 + x - y)\<bar> + \<bar>alpha * ?v\<bar> + \<bar>alpha * ?c * (x - 2 * p1 + p2)\<bar>"
    by (simp only:)
  moreover have "\<bar>alpha * ?v\<bar> \<le> alpha * V"
    using a v by (simp add: abs_mult mult_left_mono)
  moreover have "\<bar>alpha * ?c * (x - 2 * p1 + p2)\<bar> \<le> alpha * ?c * E"
    using a c x(3) by (simp add: abs_mult mult_left_mono)
  ultimately have v': "\<bar>?v'\<bar> \<le> V"
    using e inv by linarith
  have "y' = ?v' + ?g * x - ?c * (x - p1)"
    by simp
  moreover have "\<bar>A + B - C\<bar> \<le> \<bar>A\<bar> + \<bar>B\<bar> + \<bar>C\<bar>" for A B C :: real
    by linarith
  ultimately have "\<bar>y'\<bar> \<le> \<bar>?v'\<bar> + \<bar>?g * x\<bar> + \<bar>?c * (x - p1)\<bar>"
    by (simp only:)
  moreover have "\<bar>?g * x\<bar> \<le> ?g * B"
    using g x(1) by (simp add: abs_mult mult_left_mono)
  moreover have "\<bar>?c * (x - p1)\<bar> \<le> ?c * D"
    using c x(2) by (simp add: abs_mult mult_left_mono)
  ultimately have "\<bar>y'\<bar> \<le> B"
    using v' fin by linarith
  then show ?thesis
    using v' by simp
qed

lemma highpass_loop_bounded:
  fixes alpha B D E V :: real
  assumes a: "0 < alpha" "alpha < 1"
    and inv: "alpha * V + alpha * hp_lag alpha * E + 1 \<le> V"
    and fin: "hp_gain alpha * B + hp_lag alpha * D + V \<le> B"
  shows "smooth B D E p2 p1 xs \<Longrightarrow> filtered \<noteq> [] \<Longrightarrow>
    \<bar>real_of_int (last filtered) - hp_gain alpha * p1 + hp_lag alpha * (p1 - p2)\<bar> \<le> V \<Longrightarrow>
    list_all (\<lambda>y. \<bar>real_of_int y\<bar> \<le> B) filtered \<Longrightarrow>
    list_all (\<lambda>y. \<bar>real_of_int y\<bar> \<le> B) (highpass_loop alpha filtered p1 xs)"
proof (induction xs arbitrary: p2 p1 filtered)
  case Nil
  then show ?case by simp
next
  case (Cons x xs)
  let ?y' = "py_int (alpha * (p1 + real_of_int x - real_of_int (last filtered)))"
  have s: "\<bar>real_of_int ?y' - hp_gain alpha * real_of_int x + hp_lag alpha * (real_of_int x - p1)\<bar> \<le> V
      \<and> \<bar>real_of_int ?y'\<bar> \<le> B"
  proof (rule highpass_step_bounded [OF a inv fin, where ?p2.0 = p2 and y = "real_of_int (last filtered)"])
    show "\<bar>real_of_int x\<bar> \<le> B" "\<bar>real_of_int x - p1\<bar> \<le> D"
      "\<bar>real_of_int x - 2 * p1 + p2\<bar> \<le> E"
      using Cons.prems(1) by simp_all
    show "\<bar>real_of_int (last filtered) - hp_gain alpha * p1 + hp_lag alpha * (p1 - p2)\<bar> \<le> V"
      by (rule Cons.prems(3))
    show "\<bar>real_of_int ?y' - alpha * (p1 + real_of_int x - real_of_int (last filtered))\<bar> < 1"
      by (rule py_int_error)
  qed
  have "list_all (\<lambda>y. \<bar>real_of_int y\<bar> \<le> B)
      (highpass_loop alpha (filtered @ [?y']) (real_of_int x) xs)"
  proof (rule Cons.IH [of p1])
    show "smooth B D E p1 (real_of_int x) xs"
      using Cons.prems(1) by simp
    show "filtered @ [?y'] \<noteq> []"
      by simp
    show "\<bar>real_of_int (last (filtered @ [?y'])) - hp_gain alpha * real_of_int x
        + hp_lag alpha * (real_of_int x - p1)\<bar> \<le> V"
      using s by simp
    show "list_all (\<lambda>y. \<bar>real_of_int y\<bar> \<le> B) (filtered @ [?y'])"
      using s Cons.prems(4) by simp
  qed
  then show ?case
    using Cons.prems(2) by (simp add: Let_def)
qed

lemma sin_turn: "sin (x + 2 * pi * of_int k) = sin x"
proof -
  have "sin (x + 2 * pi * of_int k) = sin x \<and> cos (x + 2 * pi * of_int k) = cos x"
    unfolding sin_cos_eq_iff by (rule exI [of _ k]) simp
  then show ?thesis by simp
qed

lemma amplitude: "(0.02 :: real) * 32767 = 32767 / 50"
  by simp

lemma raw_sample_bound: "\<bar>real_of_int (raw_sample \<theta>)\<bar> \<le> 655"
proof -
  have "\<bar>32767 / 50 * sin \<theta>\<bar> \<le> 32767 / 50 * 1"
    unfolding abs_mult by (intro mult_mono) simp_all
  then have "real_of_int \<bar>raw_sample \<theta>\<bar> \<le> 32767 / 50"
    using py_int_abs [of "32767 / 50 * sin \<theta>"] by (simp add: raw_sample_def)
  then have "\<bar>raw_sample \<theta>\<bar> \<le> \<lfloor>32767 / 50 :: real\<rfloor>"
    by (simp only: le_floor_iff)
  also have "\<dots> = 655"
    by simp
  finally show ?thesis
    by linarith
qed

lemma raw_sample_error: "\<bar>real_of_int (raw_sample \<theta>) - 32767 / 50 * sin \<theta>\<bar> < 1"
  using py_int_error [of "32767 / 50 * sin \<theta>"] by (simp add: raw_sample_def)

lemma raw_step:
  assumes "turn_step \<theta> \<theta>'"
  shows "\<bar>real_of_int (raw_sample \<theta>') - real_of_int (raw_sample \<theta>)\<bar> \<le> 159 / 2"
proof -
  obtain w k where w: "pi / 30 \<le> w" "w \<le> 3 * pi / 80" and t: "\<theta>' = \<theta> + w + 2 * pi * of_int k"
    using assms unfolding turn_step_def by blast
  have s: "sin \<theta>' = sin (\<theta> + w)"
    unfolding t by (rule sin_turn)
  have "0 \<le> w"
    using w(1) pi_gt_zero by linarith
  moreover have "w \<le> 11813 / 100000"
    using w(2) pi_lt_315 by linarith
  ultimately have "\<bar>sin \<theta>' - sin \<theta>\<bar> \<le> 11813 / 100000"
    using sin_step [of \<theta> w] unfolding s by linarith
  then have "\<bar>32767 / 50 * sin \<theta>' - 32767 / 50 * sin \<theta>\<bar> \<le> 155 / 2"
    by linarith
  then show ?thesis
    using raw_sample_error [of \<theta>] raw_sample_error [of \<theta>'] by linarith
qed

lemma raw_second:
  assumes "turn_step \<theta>1 \<theta>2" and "turn_step \<theta>2 \<theta>3"
  shows "\<bar>real_of_int (raw_sample \<theta>3) - 2 * real_of_int (raw_sample \<theta>2) + real_of_int (raw_sample \<theta>1)\<bar> \<le> 87 / 4"
proof -
  obtain a k where a: "pi / 30 \<le> a" "a \<le> 3 * pi / 80" and t1: "\<theta>2 = \<theta>1 + a + 2 * pi * of_int k"
    using assms(1) unfolding turn_step_def by blast
  obtain b j where b: "pi / 30 \<le> b" "b \<le> 3 * pi / 80" and t3: "\<theta>3 = \<theta>2 + b + 2 * pi * of_int j"
    using assms(2) unfolding turn_step_def by blast
  have s3: "sin \<theta>3 = sin (\<theta>2 + b)"
    unfolding t3 by (rule sin_turn)
  have "\<theta>1 = (\<theta>2 - a) + 2 * pi * of_int (- k)"
    using t1 by simp
  then have s1: "sin \<theta>1 = sin (\<theta>2 - a)"
    using sin_turn [of "\<theta>2 - a" "- k"] by simp
  have a0: "0 \<le> a" "a \<le> 11813 / 100000" and b0: "0 \<le> b" "b \<le> 11813 / 100000"
    using a b pi_gt_zero pi_lt_315 by linarith+
  have "\<bar>b - a\<bar> \<le> pi / 240"
    using a b by linarith
  then have d: "\<bar>b - a\<bar> \<le> 13125 / 1000000"
    using pi_lt_315 by linarith
  have "a\<^sup>2 \<le> (11813 / 100000)\<^sup>2" "b\<^sup>2 \<le> (11813 / 100000)\<^sup>2"
    using a0 b0 by (simp_all add: power_mono)
  then have "a\<^sup>2 / 2 + b\<^sup>2 / 2 + \<bar>b - a\<bar> \<le> 2708 / 100000"
    using d by (simp add: power2_eq_square)
  then have "\<bar>sin \<theta>3 - 2 * sin \<theta>2 + sin \<theta>1\<bar> \<le> 2708 / 100000"
    using sin_second_difference [of \<theta>2 b a] unfolding s1 s3 by linarith
  then have "\<bar>32767 / 50 * sin \<theta>3 - 2 * (32767 / 50 * sin \<theta>2) + 32767 / 50 * sin \<theta>1\<bar> \<le> 71 / 4"
    by linarith
  then show ?thesis
    using raw_sample_error [of \<theta>1] raw_sample_error [of \<theta>2] raw_sample_error [of \<theta>3]
    by linarith
qed

lemma peak_rescale_error:
  assumes "\<bar>real_of_int r\<bar> \<le> 655"
  shows "\<bar>real_of_int (rescale 655 r) - real_of_int r * (32767 / 655)\<bar> < 1001 / 1000"
proof -
  have "\<bar>r\<bar> \<le> 655"
    using assms by linarith
  then have "\<bar>real_of_int (rescale 655 r) - real_of_int r * (32767 / real_of_int 655)\<bar> < 1 + 1 / 2 ^ 36"
    by (intro rescale_error) simp_all
  moreover have "(1 + 1 / 2 ^ 36 :: real) \<le> 1001 / 1000"
    by simp
  ultimately show ?thesis
    by simp
qed

lemma peak_rescale_bound:
  assumes "\<bar>real_of_int r\<bar> \<le> 655"
  shows "\<bar>real_of_int (rescale 655 r)\<bar> \<le> 32767"
proof -
  have "\<bar>r\<bar> \<le> 655"
    using assms by linarith
  then have "\<bar>rescale 655 r\<bar> \<le> 32767"
    by (intro rescale_bound) simp_all
  then show ?thesis
    by linarith
qed

lemma norm_step:
  assumes "\<bar>real_of_int r\<bar> \<le> 655" and "\<bar>real_of_int r'\<bar> \<le> 655"
    and "\<bar>real_of_int r' - real_of_int r\<bar> \<le> 159 / 2"
  shows "\<bar>real_of_int (rescale 655 r') - real_of_int (rescale 655 r)\<bar> \<le> 3980"
  using assms(3) peak_rescale_error [OF assms(1)] peak_rescale_error [OF assms(2)] by linarith

lemma norm_second:
  assumes "\<bar>real_of_int r1\<bar> \<le> 655" and "\<bar>real_of_int r2\<bar> \<le> 655" and "\<bar>real_of_int r3\<bar> \<le> 655"
    and "\<bar>real_of_int r3 - 2 * real_of_int r2 + real_of_int r1\<bar> \<le> 87 / 4"
  shows "\<bar>real_of_int (rescale 655 r3) - 2 * real_of_int (rescale 655 r2) + real_of_int (rescale 655 r1)\<bar> \<le> 1093"
  using assms(4) peak_rescale_error [OF assms(1)] peak_rescale_error [OF assms(2)]
    peak_rescale_error [OF assms(3)]
  by linarith

lemma tone_step_range: "pi / 30 \<le> tone_step b \<and> tone_step b \<le> 3 * pi / 80"
  by (simp add: tone_step_def MARK_TONE_def SPACE_TONE_def SAMPLE_RATE_def)

lemma tone_as_angles:
  "generate_continuous_tone (real_of_int (if b = 1 then MARK_TONE else SPACE_TONE)) DURATION_PER_BIT phase 0.02
   = (map raw_sample (map (\<lambda>t. tone_step b * real t + phase) [0..<320]),
      phase + py_fmod (tone_step b * 320) (2 * pi))"
proof -
  have d: "nat DURATION_PER_BIT = 320"
    by (simp add: DURATION_PER_BIT_def SAMPLE_RATE_def BAUD_RATE_def)
  show ?thesis
    unfolding generate_continuous_tone_def d
    by (simp add: tone_sample_def raw_sample_def tone_step_def DURATION_PER_BIT_def
        SAMPLE_RATE_def BAUD_RATE_def o_def mult_ac)
qed

lemma tone_loop_angles:
  "fst (tone_loop audio phase bits) = audio @ map raw_sample (tone_angles phase bits)"
proof (induction bits arbitrary: audio phase)
  case Nil
  show ?case by simp
next
  case (Cons b bits)
  show ?case
    unfolding tone_loop_Cons tone_as_angles by (simp add: Cons)
qed

lemma chain_ramp:
  assumes w: "pi / 30 \<le> w" "w \<le> 3 * pi / 80"
    and r: "chain (w * real (n - 1) + phase) rest"
  shows "i < n \<Longrightarrow> turn_step \<theta> (w * real i + phase) \<Longrightarrow>
    chain \<theta> (map (\<lambda>t. w * real t + phase) [i..<n] @ rest)"
proof (induction "n - i" arbitrary: i \<theta>)
  case 0
  then show ?case by simp
next
  case (Suc d)
  have u: "[i..<n] = i # [Suc i..<n]"
    using Suc.prems(1) by (rule upt_conv_Cons)
  show ?case
  proof (cases "Suc i < n")
    case True
    have "turn_step (w * real i + phase) (w * real (Suc i) + phase)"
      unfolding turn_step_def using w
      by (intro exI [of _ w] exI [of _ 0]) (simp add: algebra_simps)
    then have "chain (w * real i + phase) (map (\<lambda>t. w * real t + phase) [Suc i..<n] @ rest)"
      using Suc.hyps(2) True by (intro Suc.hyps(1)) simp_all
    then show ?thesis
      using Suc.prems(2) by (simp add: u)
  next
    case False
    then have "Suc i = n"
      using Suc.prems(1) by simp
    then have "[Suc i..<n] = []" and "n - 1 = i"
      by simp_all
    then show ?thesis
      using r Suc.prems(2) by (simp add: u)
  qed
qed

lemma chain_tone_angles:
  "turn_step \<theta> phase \<Longrightarrow> chain \<theta> (tone_angles phase bits)"
proof (induction bits arbitrary: \<theta> phase)
  case Nil
  show ?case by simp
next
  case (Cons b bits)
  let ?w = "tone_step b"
  let ?next = "phase + py_fmod (?w * 320) (2 * pi)"
  have "?next = (?w * real (320 - 1) + phase) + ?w + 2 * pi * of_int (- \<lfloor>?w * 320 / (2 * pi)\<rfloor>)"
    by (simp add: py_fmod_def algebra_simps)
  then have "turn_step (?w * real (320 - 1) + phase) ?next"
    unfolding turn_step_def using tone_step_range [of b] by blast
  then have "chain (?w * real (320 - 1) + phase) (tone_angles ?next bits)"
    by (rule Cons.IH)
  then have "chain \<theta> (map (\<lambda>t. ?w * real t + phase) [0..<320] @ tone_angles ?next bits)"
    using tone_step_range [of b] Cons.prems by (intro chain_ramp) simp_all
  then show ?case
    by simp
qed

lemma smooth_of_chain:
  "turn_step \<theta>1 \<theta>2 \<Longrightarrow> chain \<theta>2 angles \<Longrightarrow>
   smooth 32767 3980 1093 (real_of_int (rescale 655 (raw_sample \<theta>1)))
     (real_of_int (rescale 655 (raw_sample \<theta>2)))
     (map (\<lambda>\<theta>. rescale 655 (raw_sample \<theta>)) angles)"
proof (induction angles arbitrary: \<theta>1 \<theta>2)
  case Nil
  show ?case by simp
next
  case (Cons \<theta>3 angles)
  have s: "turn_step \<theta>2 \<theta>3" and c: "chain \<theta>3 angles"
    using Cons.prems(2) by simp_all
  have "\<bar>real_of_int (rescale 655 (raw_sample \<theta>3))\<bar> \<le> 32767"
    by (rule peak_rescale_bound [OF raw_sample_bound])
  moreover have "\<bar>real_of_int (rescale 655 (raw_sample \<theta>3)) - real_of_int (rescale 655 (raw_sample \<theta>2))\<bar> \<le> 3980"
    by (rule norm_step [OF raw_sample_bound raw_sample_bound raw_step [OF s]])
  moreover have "\<bar>real_of_int (rescale 655 (raw_sample \<theta>3)) - 2 * real_of_int (rescale 655 (raw_sample \<theta>2))
      + real_of_int (rescale 655 (raw_sample \<theta>1))\<bar> \<le> 1093"
    by (rule norm_second [OF raw_sample_bound raw_sample_bound raw_sample_bound raw_second [OF Cons.prems(1) s]])
  ultimately show ?case
    using Cons.IH [OF s c] by simp
qed

lemma hp_bounds:
  assumes "9775 / 10000 \<le> alpha" and "alpha \<le> 9779 / 10000"
  shows "hp_gain alpha \<le> 9889 / 10000" and "hp_lag alpha \<le> 57 / 10000"
proof -
  have p: "0 < 1 + alpha"
    using assms by linarith
  show "hp_gain alpha \<le> 9889 / 10000"
    unfolding hp_gain_def using assms p by (simp add: pos_divide_le_eq)
  have "alpha * (1 - alpha) \<le> (9779 / 10000) * (225 / 10000)"
    using assms by (intro mult_mono) simp_all
  moreover have "(19775 / 10000) * (19775 / 10000) \<le> (1 + alpha) * (1 + alpha)"
    using assms by (intro mult_mono) simp_all
  ultimately have "alpha * (1 - alpha) \<le> 57 / 10000 * ((1 + alpha) * (1 + alpha))"
    by linarith
  then show "hp_lag alpha \<le> 57 / 10000"
    unfolding hp_lag_def power2_eq_square using p by (simp add: pos_divide_le_eq)
qed

lemma hp_invariants:
  assumes "9775 / 10000 \<le> alpha" and "alpha \<le> 9779 / 10000"
  shows "alpha * 330 + alpha * hp_lag alpha * 1093 + 1 \<le> 330"
    and "hp_gain alpha * 32767 + hp_lag alpha * 3980 + 330 \<le> 32767"
proof -
  have a: "0 < alpha" "alpha < 1"
    using assms by linarith+
  have c: "0 \<le> hp_lag alpha"
    using hp_nonneg [OF a] by simp
  have "alpha * hp_lag alpha \<le> (9779 / 10000) * (57 / 10000)"
    using assms a c hp_bounds(2) [OF assms] by (intro mult_mono) simp_all
  then show "alpha * 330 + alpha * hp_lag alpha * 1093 + 1 \<le> 330"
    using assms by linarith
  show "hp_gain alpha * 32767 + hp_lag alpha * 3980 + 330 \<le> 32767"
    using hp_bounds [OF assms] by linarith
qed

lemma ratio_bounds:
  fixes r s lo hi :: real
  assumes "0 < s" and "lo * s \<le> r" and "r \<le> hi * s"
  shows "lo \<le> r / s \<and> r / s \<le> hi"
  using assms by (simp add: pos_le_divide_eq pos_divide_le_eq)

lemma highpass_alpha_350:
  "\<exists>alpha. highpass_alpha 350 = Inr alpha \<and> 9775 / 10000 \<le> alpha \<and> alpha \<le> 9779 / 10000"
proof -
  let ?RC = "1 / (350 * 2 * pi)"
  let ?s = "?RC + 1 / real_of_int SAMPLE_RATE"
  have rc: "0 < ?RC"
    by simp
  have s: "0 < ?s"
    using rc by (simp add: SAMPLE_RATE_def add_pos_pos)
  have e: "?RC * (700 * pi) = 1"
    by simp
  have "?s * (700 * pi) = 1 + 700 * pi / 96000"
    using e by (simp add: SAMPLE_RATE_def algebra_simps)
  then have b: "(9775 / 10000) * (?s * (700 * pi)) \<le> 1 \<and> 1 \<le> (9779 / 10000) * (?s * (700 * pi))"
    using pi_gt_31 pi_lt_315 by simp
  have "(9775 / 10000) * ?s \<le> ?RC"
  proof -
    have "((9775 / 10000) * ?s) * (700 * pi) \<le> ?RC * (700 * pi)"
      using b unfolding e by (simp only: mult.assoc)
    then show ?thesis
      by (rule mult_right_le_imp_le) simp
  qed
  moreover have "?RC \<le> (9779 / 10000) * ?s"
  proof -
    have "?RC * (700 * pi) \<le> ((9779 / 10000) * ?s) * (700 * pi)"
      using b unfolding e by (simp only: mult.assoc)
    then show ?thesis
      by (rule mult_right_le_imp_le) simp
  qed
  ultimately have "9775 / 10000 \<le> ?RC / ?s \<and> ?RC / ?s \<le> 9779 / 10000"
    by (rule ratio_bounds [OF s])
  moreover have "highpass_alpha 350 = Inr (?RC / ?s)"
    using s by (simp add: highpass_alpha_def Let_def)
  ultimately show ?thesis
    by blast
qed

lemma generate_bitstream_first: "\<exists>rest. generate_bitstream packet = 0 # rest"
proof -
  have "(32 :: nat) = Suc 31"
    by simp
  then have "concat (replicate 32 [0, 1 :: int]) = 0 # 1 # concat (replicate 31 [0, 1])"
    by (simp only: replicate_Suc concat.simps) simp
  then show ?thesis
    by (simp add: generate_bitstream_def packet_loop_eq preamble_loop_eq PREAMBLE_LENGTH_def)
qed

lemma tone_angles_first:
  "\<exists>angles. tone_angles 0 (0 # bits) = 0 # angles \<and> pi / 2 \<in> set (tone_angles 0 (0 # bits))"
proof -
  have u: "[0..<320] = 0 # [Suc 0..<320]"
    by (rule upt_conv_Cons) simp
  have "tone_step 0 * real 15 + 0 = pi / 2"
    by (simp add: tone_step_def SPACE_TONE_def SAMPLE_RATE_def)
  moreover have "(15 :: nat) \<in> set [0..<320]"
    by simp
  ultimately have "pi / 2 \<in> (\<lambda>t. tone_step 0 * real t + 0) ` set [0..<320]"
    by (metis (mono_tags, lifting) image_eqI)
  then have "pi / 2 \<in> set (tone_angles 0 (0 # bits))"
    by simp
  moreover have "\<exists>angles. tone_angles 0 (0 # bits) = 0 # angles"
    by (simp add: u del: upt_Suc)
  ultimately show ?thesis
    by blast
qed

lemma raw_sample_peak: "raw_sample (pi / 2) = 655"
proof -
  have "\<lfloor>32767 / 50 :: real\<rfloor> = 655"
    by simp
  then show ?thesis
    by (simp add: raw_sample_def py_int_def)
qed

lemma raw_sample_zero: "rescale 655 (raw_sample 0) = 0"
  by (simp add: raw_sample_def rescale_def py_int_def fl64_zero)

lemma raw_max:
  assumes "pi / 2 \<in> set angles"
  shows "Max (abs ` set (map raw_sample angles)) = 655"
proof (rule Max_eqI)
  show "finite (abs ` set (map raw_sample angles))"
    by simp
  show "y \<le> 655" if h: "y \<in> abs ` set (map raw_sample angles)" for y
  proof -
    obtain \<theta> where "y = \<bar>raw_sample \<theta>\<bar>"
      using h by auto
    then show ?thesis
      using raw_sample_bound [of \<theta>] by linarith
  qed
  have "\<bar>raw_sample (pi / 2)\<bar> \<in> abs ` set (map raw_sample angles)"
    using assms by (intro imageI) simp
  then show "655 \<in> abs ` set (map raw_sample angles)"
    by (simp add: raw_sample_peak)
qed

lemma normalize_raw:
  assumes "pi / 2 \<in> set angles"
  shows "normalize (map raw_sample angles) = Inr (map (\<lambda>\<theta>. rescale 655 (raw_sample \<theta>)) angles)"
proof -
  have "map raw_sample angles \<noteq> []"
    using assms by auto
  then show ?thesis
    using raw_max [OF assms] by (simp add: normalize_def max_abs_eq o_def)
qed

lemma filtered_bounded:
  assumes a: "9775 / 10000 \<le> alpha" "alpha \<le> 9779 / 10000"
    and c: "chain (- (pi / 30)) (0 # angles)"
  shows "list_all (\<lambda>y. \<bar>real_of_int y\<bar> \<le> 32767)
    (highpass_loop alpha [] 0 (map (\<lambda>\<theta>. rescale 655 (raw_sample \<theta>)) (0 # angles)))"
proof -
  let ?X = "\<lambda>\<theta>. rescale 655 (raw_sample \<theta>)"
  let ?p2 = "real_of_int (?X (- (pi / 30)))"
  have s: "turn_step (- (pi / 30)) 0" and c0: "chain 0 angles"
    using c by simp_all
  have a0: "0 < alpha" "alpha < 1"
    using a by linarith+
  have sm: "smooth 32767 3980 1093 ?p2 (real_of_int (?X 0)) (map ?X angles)"
    by (rule smooth_of_chain [OF s c0])
  have "\<bar>real_of_int (?X 0) - ?p2\<bar> \<le> 3980"
    by (rule norm_step [OF raw_sample_bound raw_sample_bound raw_step [OF s]])
  then have p2: "\<bar>?p2\<bar> \<le> 3980"
    by (simp add: raw_sample_zero)
  have "\<bar>hp_lag alpha * ?p2\<bar> \<le> (57 / 10000) * 3980"
    unfolding abs_mult using hp_nonneg(2) [OF a0] hp_bounds(2) [OF a] p2
    by (intro mult_mono) simp_all
  then have v: "\<bar>real_of_int (last [0]) - hp_gain alpha * 0 + hp_lag alpha * (0 - ?p2)\<bar> \<le> 330"
    by simp
  have "list_all (\<lambda>y. \<bar>real_of_int y\<bar> \<le> 32767) (highpass_loop alpha [0] 0 (map ?X angles))"
  proof (rule highpass_loop_bounded [OF a0 hp_invariants [OF a], where ?p2.0 = ?p2])
    show "smooth 32767 3980 1093 ?p2 0 (map ?X angles)"
      using sm by (simp add: raw_sample_zero)
    show "[0 :: int] \<noteq> []"
      by simp
    show "\<bar>real_of_int (last [0]) - hp_gain alpha * 0 + hp_lag alpha * (0 - ?p2)\<bar> \<le> 330"
      by (rule v)
    show "list_all (\<lambda>y. \<bar>real_of_int y\<bar> \<le> 32767) [0]"
      by simp
  qed
  then show ?thesis
    by (simp add: raw_sample_zero py_int_def)
qed

lemma wav_loop_total:
  "list_all (\<lambda>y. \<bar>y\<bar> \<le> 32767) audio \<Longrightarrow>
   \<exists>bytes. wav_loop wav_data audio = Inr bytes \<and> length bytes = length wav_data + 2 * length audio"
proof (induction audio arbitrary: wav_data)
  case Nil
  show ?case by simp
next
  case (Cons sample audio)
  have "- 32768 \<le> sample \<and> sample \<le> 32767"
    using Cons.prems by auto
  then have "to_bytes_signed2 sample = Inr [word_of_int sample, word_of_int (drop_bit 8 sample)]"
    by (simp add: to_bytes_signed2_def)
  then show ?case
    using Cons.IH [of "wav_data @ [word_of_int sample, word_of_int (drop_bit 8 sample)]"] Cons.prems
    by simp
qed

text \<open>
  C6. For every packet \<^verbatim>\<open>afsk_encode\<close> returns a non-empty buffer of
  \<open>320 * (66 + 8 * len(packet))\<close> samples, each of absolute value at most 32767, and
  the signed 16-bit serialization of \<^verbatim>\<open>save_to_wav\<close> raises no OverflowError on it
  and yields two bytes a sample. The tones and the filter are read in real arithmetic;
  the rescaling by \<open>32767 / 655\<close> is the rounded one of the program, which sends the
  peak 655 to 32766.
\<close>

theorem afsk_encode_samples_in_range:
  "\<exists>ys. afsk_encode packet = Inr ys
     \<and> ys \<noteq> []
     \<and> length ys = 320 * (66 + 8 * length packet)
     \<and> list_all (\<lambda>y. \<bar>y\<bar> \<le> 32767) ys
     \<and> (\<exists>bytes. wav_frames ys = Inr bytes \<and> length bytes = 2 * length ys)"
proof -
  obtain bits where bits: "generate_bitstream packet = 0 # bits"
    using generate_bitstream_first by blast
  obtain angles where angles: "tone_angles 0 (0 # bits) = 0 # angles"
      and peak: "pi / 2 \<in> set (tone_angles 0 (0 # bits))"
    using tone_angles_first by blast
  obtain alpha where alpha: "highpass_alpha 350 = Inr alpha"
      and a: "9775 / 10000 \<le> alpha" "alpha \<le> 9779 / 10000"
    using highpass_alpha_350 by blast
  let ?X = "\<lambda>\<theta>. rescale 655 (raw_sample \<theta>)"
  let ?ys = "highpass_loop alpha [] 0 (map ?X (0 # angles))"
  have "turn_step (- (pi / 30)) 0"
    unfolding turn_step_def by (intro exI [of _ "pi / 30"] exI [of _ 0]) simp
  then have "chain (- (pi / 30)) (tone_angles 0 (0 # bits))"
    by (rule chain_tone_angles)
  then have c: "chain (- (pi / 30)) (0 # angles)"
    by (simp only: angles)
  have raw: "fst (tone_loop [] 0 (generate_bitstream packet)) = map raw_sample (0 # angles)"
    using tone_loop_angles [of "[]" 0 "0 # bits"] by (simp only: bits angles append_Nil)
  have "normalize (map raw_sample (0 # angles)) = Inr (map ?X (0 # angles))"
    using peak unfolding angles by (rule normalize_raw)
  then have enc: "afsk_encode packet = Inr ?ys"
    using raw alpha by (simp add: afsk_encode_def case_prod_beta highpass_filter_def)
  have "list_all (\<lambda>y. \<bar>real_of_int y\<bar> \<le> 32767) ?ys"
    by (rule filtered_bounded [OF a c])
  then have b: "list_all (\<lambda>y. \<bar>y\<bar> \<le> 32767) ?ys"
    by (rule list.pred_mono_strong) linarith
  have l: "length ?ys = 320 * (66 + 8 * length packet)"
    using afsk_encode_total [of packet] enc by simp
  have "\<exists>bytes. wav_frames ?ys = Inr bytes \<and> length bytes = 2 * length ?ys"
    using wav_loop_total [OF b, of "[]"] by (simp add: wav_frames_def)
  moreover have "?ys \<noteq> []"
    using l by auto
  ultimately show ?thesis
    using enc b l by blast
qed

end
